theory Spec2Isabelle
  imports Main
begin

section \<open>The environment of the recorder\<close>

text \<open>
  The recorder drives three external collaborators: the Streamlink library (stream
  lookup), the \<open>streamlink\<close> command (capture) and the \<open>ffmpeg\<close> command
  (transcode). Each is a parameter of the model. A \<open>Path\<close> object is modelled by
  its string; a file by its content, whose length is \<open>st_size\<close>.
\<close>

type_synonym path = string

type_synonym filesystem = "path \<rightharpoonup> string"

text \<open>What \<open>subprocess.run\<close> does: it returns a completed process with an exit
  code, or raises.\<close>

datatype proc_outcome =
    Exited int
  | FileNotFoundError
  | TimeoutExpired
  | OtherException

text \<open>What \<open>session.streams(url)\<close> does: it returns a dict from quality names to
  streams, or raises.\<close>

datatype lookup_result =
    Streams "string \<rightharpoonup> string"
  | NoPluginError
  | PluginError
  | UnexpectedError

datatype error = ValueError | UncaughtError

datatype event =
    Slept int
  | Probed int bool
  | Captured "string list" proc_outcome
  | Transcoded "string list" proc_outcome
  | Wrote path string
  | Unlinked path

text \<open>
  \<open>streams_env url n\<close> answers the \<open>n\<close>-th stream lookup of the run (counted from 0);
  \<open>capture_env n cmd fs\<close> is the \<open>n\<close>-th run of the capture command on the files
  \<open>fs\<close>: how the process ended and the files it left; \<open>ffmpeg_env cmd fs\<close> likewise
  for the transcode command;
  \<open>tmp_env fs\<close> is the name \<open>NamedTemporaryFile\<close> picks.
\<close>

record env =
  streams_env :: "string \<Rightarrow> nat \<Rightarrow> lookup_result"
  capture_env :: "nat \<Rightarrow> string list \<Rightarrow> filesystem \<Rightarrow> proc_outcome \<times> filesystem"
  ffmpeg_env :: "string list \<Rightarrow> filesystem \<Rightarrow> proc_outcome \<times> filesystem"
  tmp_env :: "filesystem \<Rightarrow> path"

text \<open>The world: the files on disk, a clock in seconds that only \<open>time.sleep\<close>
  advances, and the trace of what the program did to its environment, oldest first.\<close>

record world =
  files :: filesystem
  now :: int
  trace :: "event list"

fun is_probe :: "event \<Rightarrow> bool" where
  "is_probe (Probed t b) = True"
| "is_probe e = False"

fun is_capture :: "event \<Rightarrow> bool" where
  "is_capture (Captured c r) = True"
| "is_capture e = False"

definition probe_count :: "event list \<Rightarrow> nat" where
  "probe_count tr = length (filter is_probe tr)"

definition capture_count :: "event list \<Rightarrow> nat" where
  "capture_count tr = length (filter is_capture tr)"

text \<open>\<open>time.sleep\<close> raises \<open>ValueError\<close> on a negative length.\<close>

definition sleep :: "int \<Rightarrow> world \<Rightarrow> error + world" where
  "sleep d w =
     (if d < 0 then Inl ValueError
      else Inr (w\<lparr>now := now w + d, trace := trace w @ [Slept d]\<rparr>))"

definition unlink :: "path \<Rightarrow> world \<Rightarrow> world" where
  "unlink p w = w\<lparr>files := (files w)(p := None), trace := trace w @ [Unlinked p]\<rparr>"

definition exists_nonempty :: "world \<Rightarrow> path \<Rightarrow> bool" where
  "exists_nonempty w p = (case files w p of None \<Rightarrow> False | Some c \<Rightarrow> 0 < length c)"

section \<open>stream.py\<close>

definition TWITCH_URL :: "string \<Rightarrow> string" where
  "TWITCH_URL channel = ''https://twitch.tv/'' @ channel"

text \<open>The \<open>try\<close> statement of \<open>is_live\<close>, on what the lookup did.\<close>

definition is_live_answer :: "lookup_result \<Rightarrow> string \<Rightarrow> bool" where
  "is_live_answer r quality =
     (case r of
        Streams streams \<Rightarrow> streams quality \<noteq> None \<or> streams ''best'' \<noteq> None
      | NoPluginError \<Rightarrow> False
      | PluginError \<Rightarrow> False
      | UnexpectedError \<Rightarrow> False)"

definition is_live :: "env \<Rightarrow> string \<Rightarrow> string \<Rightarrow> world \<Rightarrow> bool \<times> world" where
  "is_live e channel quality w =
     (let url = TWITCH_URL channel;
          r = is_live_answer (streams_env e url (probe_count (trace w))) quality
      in (r, w\<lparr>trace := trace w @ [Probed (now w) r]\<rparr>))"

partial_function (option) wait_until_live_loop ::
  "env \<Rightarrow> string \<Rightarrow> string \<Rightarrow> int \<Rightarrow> int \<Rightarrow> int \<Rightarrow> world \<Rightarrow> ((error + bool) \<times> world) option"
where
  "wait_until_live_loop e channel quality timeout interval waited w =
     (if waited < timeout then
        (case is_live e channel quality w of
           (live, w1) \<Rightarrow>
             if live then Some (Inr True, w1)
             else (case sleep interval w1 of
                     Inl err \<Rightarrow> Some (Inl err, w1)
                   | Inr w2 \<Rightarrow>
                       wait_until_live_loop e channel quality timeout interval
                         (waited + interval) w2))
      else Some (Inr False, w))"

definition wait_until_live ::
  "env \<Rightarrow> string \<Rightarrow> string \<Rightarrow> int \<Rightarrow> int \<Rightarrow> world \<Rightarrow> ((error + bool) \<times> world) option"
where
  "wait_until_live e channel quality timeout interval w =
     wait_until_live_loop e channel quality timeout interval 0 w"

partial_function (option) wait_for_reconnect_loop ::
  "env \<Rightarrow> string \<Rightarrow> string \<Rightarrow> int \<Rightarrow> int \<Rightarrow> int \<Rightarrow> world \<Rightarrow> ((error + bool) \<times> world) option"
where
  "wait_for_reconnect_loop e channel quality grace_period check_interval waited w =
     (if waited < grace_period then
        (case sleep check_interval w of
           Inl err \<Rightarrow> Some (Inl err, w)
         | Inr w1 \<Rightarrow>
             (case is_live e channel quality w1 of
                (live, w2) \<Rightarrow>
                  if live then Some (Inr True, w2)
                  else wait_for_reconnect_loop e channel quality grace_period check_interval
                         (waited + check_interval) w2))
      else Some (Inr False, w))"

definition wait_for_reconnect ::
  "env \<Rightarrow> string \<Rightarrow> string \<Rightarrow> int \<Rightarrow> int \<Rightarrow> world \<Rightarrow> ((error + bool) \<times> world) option"
where
  "wait_for_reconnect e channel quality grace_period check_interval w =
     wait_for_reconnect_loop e channel quality grace_period check_interval 0 w"

declare wait_until_live_loop.simps [code] wait_for_reconnect_loop.simps [code]

section \<open>postprocess.py\<close>

text \<open>\<open>_run_ffmpeg\<close>: a non-zero exit code, a missing binary and a timeout are
  reported as \<open>False\<close>; any other exception of \<open>subprocess.run\<close> is not caught.\<close>

definition run_ffmpeg :: "env \<Rightarrow> string list \<Rightarrow> string \<Rightarrow> world \<Rightarrow> (error + bool) \<times> world" where
  "run_ffmpeg e cmd ffmpeg w =
     (case ffmpeg_env e cmd (files w) of
        (result, fs) \<Rightarrow>
          (let w1 = w\<lparr>files := fs, trace := trace w @ [Transcoded cmd result]\<rparr>
           in case result of
                Exited returncode \<Rightarrow> if returncode \<noteq> 0 then (Inr False, w1) else (Inr True, w1)
              | FileNotFoundError \<Rightarrow> (Inr False, w1)
              | TimeoutExpired \<Rightarrow> (Inr False, w1)
              | OtherException \<Rightarrow> (Inl UncaughtError, w1)))"

definition remux_cmd :: "string \<Rightarrow> path \<Rightarrow> path \<Rightarrow> string list" where
  "remux_cmd ffmpeg src dest =
     [ffmpeg, ''-i'', src, ''-c'', ''copy'', ''-movflags'', ''+faststart'', dest, ''-y'']"

definition remux_single :: "env \<Rightarrow> path \<Rightarrow> path \<Rightarrow> string \<Rightarrow> world \<Rightarrow> (error + bool) \<times> world" where
  "remux_single e src dest ffmpeg w = run_ffmpeg e (remux_cmd ffmpeg src dest) ffmpeg w"

text \<open>The line \<open>file '<seg>'\<close> and a newline, one per segment.\<close>

definition concat_line :: "path \<Rightarrow> string" where
  "concat_line seg = ''file '' @ [CHR 0x27] @ seg @ [CHR 0x27, CHR 0x0A]"

definition concat_cmd :: "string \<Rightarrow> path \<Rightarrow> path \<Rightarrow> string list" where
  "concat_cmd ffmpeg concat_list dest =
     [ffmpeg, ''-f'', ''concat'', ''-safe'', ''0'', ''-i'', concat_list, ''-c'', ''copy'',
      ''-movflags'', ''+faststart'', dest, ''-y'']"

text \<open>The list file is removed in the \<open>finally\<close> block, whatever the command did.\<close>

definition merge_segments :: "env \<Rightarrow> path list \<Rightarrow> path \<Rightarrow> string \<Rightarrow> world \<Rightarrow> (error + bool) \<times> world" where
  "merge_segments e segments dest ffmpeg w =
     (let concat_list = tmp_env e (files w);
          text = concat (map concat_line segments);
          w1 = w\<lparr>files := (files w)(concat_list \<mapsto> text),
                 trace := trace w @ [Wrote concat_list text]\<rparr>
      in case run_ffmpeg e (concat_cmd ffmpeg concat_list dest) ffmpeg w1 of
           (success, w2) \<Rightarrow> (success, unlink concat_list w2))"

fun cleanup :: "path list \<Rightarrow> world \<Rightarrow> world" where
  "cleanup [] w = w"
| "cleanup (f # fs) w = cleanup fs (unlink f w)"

definition postprocess ::
  "env \<Rightarrow> path list \<Rightarrow> path \<Rightarrow> bool \<Rightarrow> bool \<Rightarrow> string \<Rightarrow> world \<Rightarrow> (error + path option) \<times> world"
where
  "postprocess e segments final_path merge clean ffmpeg w =
     (if segments = [] then (Inr None, w)
      else
        (let attempt =
               (if length segments = 1 then Some (remux_single e (segments ! 0) final_path ffmpeg w)
                else if merge then Some (merge_segments e segments final_path ffmpeg w)
                else None)
         in case attempt of
              None \<Rightarrow> (Inr (Some (segments ! 0)), w)
            | Some (Inl err, w1) \<Rightarrow> (Inl err, w1)
            | Some (Inr success, w1) \<Rightarrow>
                if success \<and> exists_nonempty w1 final_path
                then (Inr (Some final_path), if clean then cleanup segments w1 else w1)
                else (Inr None, w1)))"

section \<open>config.py\<close>

text \<open>The field \<open>merge_segments\<close> of the source is \<open>merge_segments_opt\<close> here: the
  name is taken by the function of postprocess.py.\<close>

record Config =
  channel :: string
  output_dir :: string
  quality :: string
  stream_timeout :: int
  initial_wait :: int
  retry_interval :: int
  reconnect_grace_period :: int
  reconnect_check_interval :: int
  max_reconnects :: int
  merge_segments_opt :: bool
  cleanup_segments :: bool
  ffmpeg_path :: string
  streamlink_args :: "string list"

section \<open>recorder.py\<close>

record RecordingSession =
  config :: Config
  session_date :: string
  segments :: "path list"
  reconnect_count :: int

text \<open>The dataclass constructor \<open>RecordingSession(config=config)\<close>, on the date
  \<open>__post_init__\<close> reads from the clock.\<close>

definition new_session :: "Config \<Rightarrow> string \<Rightarrow> RecordingSession" where
  "new_session cfg date =
     \<lparr>config = cfg, session_date = date, segments = [], reconnect_count = 0\<rparr>"

text \<open>Decimal printing: \<open>str(n)\<close> and the format \<open>{num:02d}\<close>.\<close>

fun digits10 :: "nat \<Rightarrow> string" where
  "digits10 n =
     (if n < 10 then [''0123456789'' ! n]
      else digits10 (n div 10) @ [''0123456789'' ! (n mod 10)])"

declare digits10.simps [simp del]

definition str_int :: "int \<Rightarrow> string" where
  "str_int i = (if i < 0 then ''-'' @ digits10 (nat (- i)) else digits10 (nat i))"

definition fmt_02d :: "nat \<Rightarrow> string" where
  "fmt_02d num = (let s = digits10 num in replicate (2 - length s) (CHR ''0'') @ s)"



text \<open>
  \<open>str(Path(dir) / name)\<close> on a POSIX system. pathlib joins the two strings as
  \<open>posixpath.join\<close> does (an absolute name replaces the directory), splits off the
  root (\<open>/\<close>, or \<open>//\<close> for exactly two leading slashes), drops the empty and the
  \<open>.\<close> components of the rest, and prints the root and the components joined by
  \<open>/\<close>, or \<open>.\<close> for the empty path.
\<close>

definition posixpath_join :: "string \<Rightarrow> string \<Rightarrow> string" where
  "posixpath_join a b =
     (if take 1 b = ''/'' then b
      else if a = [] \<or> last a = CHR ''/'' then a @ b
      else a @ ''/'' @ b)"

definition splitroot :: "string \<Rightarrow> string \<times> string" where
  "splitroot p =
     (if take 1 p \<noteq> ''/'' then ([], p)
      else if take 1 (drop 1 p) \<noteq> ''/'' \<or> take 1 (drop 2 p) = ''/'' then (''/'', drop 1 p)
      else (take 2 p, drop 2 p))"

fun split_sep :: "string \<Rightarrow> string list" where
  "split_sep [] = [[]]"
| "split_sep (c # cs) =
     (if c = CHR ''/'' then [] # split_sep cs
      else (case split_sep cs of [] \<Rightarrow> [[c]] | x # xs \<Rightarrow> (c # x) # xs))"

fun join_sep :: "string list \<Rightarrow> string" where
  "join_sep [] = []"
| "join_sep [x] = x"
| "join_sep (x # y # r) = x @ ''/'' @ join_sep (y # r)"

definition path_str :: "string \<Rightarrow> path" where
  "path_str p =
     (case splitroot p of
        (root, rel) \<Rightarrow>
          (let tail = filter (\<lambda>x. x \<noteq> [] \<and> x \<noteq> ''.'') (split_sep rel)
           in if root = [] \<and> tail = [] then ''.'' else root @ join_sep tail))"

definition path_join :: "path \<Rightarrow> string \<Rightarrow> path" where
  "path_join dir name = path_str (posixpath_join dir name)"

definition session_id :: "RecordingSession \<Rightarrow> string" where
  "session_id s = channel (config s) @ ''_'' @ session_date s"

definition final_filename :: "RecordingSession \<Rightarrow> path" where
  "final_filename s =
     path_join (output_dir (config s)) (channel (config s) @ '' - '' @ session_date s @ ''.mp4'')"

definition segment_path_of :: "RecordingSession \<Rightarrow> nat \<Rightarrow> path" where
  "segment_path_of s num =
     path_join (output_dir (config s)) (session_id s @ ''_part'' @ fmt_02d num @ ''.ts'')"

definition next_segment_path :: "RecordingSession \<Rightarrow> path" where
  "next_segment_path s = (let num = length (segments s) + 1 in segment_path_of s num)"

definition capture_cmd :: "RecordingSession \<Rightarrow> path \<Rightarrow> string list" where
  "capture_cmd s segment_path =
     [''streamlink'', TWITCH_URL (channel (config s)), quality (config s),
      ''--output'', segment_path,
      ''--stream-timeout'', str_int (stream_timeout (config s)),
      ''--hls-live-restart''] @ streamlink_args (config s)"

text \<open>\<open>record_segment\<close>: every exception of \<open>subprocess.run\<close> ends the attempt with
  \<open>None\<close> before the file is looked at; otherwise the file is validated.\<close>

definition record_segment ::
  "env \<Rightarrow> RecordingSession \<Rightarrow> world \<Rightarrow> path option \<times> RecordingSession \<times> world"
where
  "record_segment e s w =
     (let segment_path = next_segment_path s;
          cmd = capture_cmd s segment_path
      in case capture_env e (capture_count (trace w)) cmd (files w) of
           (result, fs) \<Rightarrow>
             (let w1 = w\<lparr>files := fs, trace := trace w @ [Captured cmd result]\<rparr>
              in case result of
                   Exited returncode \<Rightarrow>
                     if \<not> exists_nonempty w1 segment_path
                     then (None, s, unlink segment_path w1)
                     else (Some segment_path, s\<lparr>segments := segments s @ [segment_path]\<rparr>, w1)
                 | FileNotFoundError \<Rightarrow> (None, s, w1)
                 | TimeoutExpired \<Rightarrow> (None, s, w1)
                 | OtherException \<Rightarrow> (None, s, w1)))"

function run ::
  "env \<Rightarrow> RecordingSession \<Rightarrow> world \<Rightarrow> ((error + unit) \<times> RecordingSession \<times> world) option"
where
  "run e s w =
     (let s1 = fst (snd (record_segment e s w));
          w1 = snd (snd (record_segment e s w))
      in if max_reconnects (config s1) \<le> reconnect_count s1 then Some (Inr (), s1, w1)
         else
           (case wait_for_reconnect e (channel (config s1)) (quality (config s1))
                   (reconnect_grace_period (config s1))
                   (reconnect_check_interval (config s1)) w1 of
              None \<Rightarrow> None
            | Some (Inl err, w2) \<Rightarrow> Some (Inl err, s1, w2)
            | Some (Inr came_back, w2) \<Rightarrow>
                if came_back
                then run e (s1\<lparr>reconnect_count := reconnect_count s1 + 1\<rparr>) w2
                else Some (Inr (), s1, w2)))"
  by pat_completeness auto
termination
  by (relation "measure (\<lambda>(e, s, w). nat (max_reconnects (config s) - reconnect_count s))")
    (auto simp: record_segment_def Let_def split: prod.split proc_outcome.split)

declare run.simps [simp del]

section \<open>Reading a trace\<close>

fun probe_times :: "event list \<Rightarrow> int list" where
  "probe_times [] = []"
| "probe_times (Probed t b # tr) = t # probe_times tr"
| "probe_times (ev # tr) = probe_times tr"

fun transcodes :: "event list \<Rightarrow> string list list" where
  "transcodes [] = []"
| "transcodes (Transcoded cmd r # tr) = cmd # transcodes tr"
| "transcodes (ev # tr) = transcodes tr"

fun unlinks :: "event list \<Rightarrow> path list" where
  "unlinks [] = []"
| "unlinks (Unlinked p # tr) = p # unlinks tr"
| "unlinks (ev # tr) = unlinks tr"

text \<open>The steps of the session loop that a trace shows, without their details.\<close>

datatype step = Capture | Sleep | Probe

fun steps :: "event list \<Rightarrow> step list" where
  "steps [] = []"
| "steps (Captured cmd r # tr) = Capture # steps tr"
| "steps (Slept d # tr) = Sleep # steps tr"
| "steps (Probed t b # tr) = Probe # steps tr"
| "steps (ev # tr) = steps tr"

fun confirmed_reconnects :: "event list \<Rightarrow> nat" where
  "confirmed_reconnects [] = 0"
| "confirmed_reconnects (Probed t b # tr) = (if b then 1 else 0) + confirmed_reconnects tr"
| "confirmed_reconnects (ev # tr) = confirmed_reconnects tr"

text \<open>What the \<open>n\<close>-th lookup of the run makes \<open>is_live\<close> answer.\<close>

definition probe_answer :: "env \<Rightarrow> string \<Rightarrow> string \<Rightarrow> nat \<Rightarrow> bool" where
  "probe_answer e ch q n = is_live_answer (streams_env e (TWITCH_URL ch) n) q"

section \<open>Scenarios\<close>

definition empty_world :: world where
  "empty_world = \<lparr>files = Map.empty, now = 0, trace = []\<rparr>"

text \<open>A channel that is live at every lookup, a capture that exits without a file, a
  transcode that fails.\<close>

definition env_live :: env where
  "env_live =
     \<lparr>streams_env = (\<lambda>url n. Streams [''best'' \<mapsto> ''hls'']),
      capture_env = (\<lambda>n cmd fs. (Exited 1, fs)),
      ffmpeg_env = (\<lambda>cmd fs. (Exited 1, fs)),
      tmp_env = (\<lambda>fs. ''/tmp/tmpconcat.txt'')\<rparr>"

definition env_offline :: env where
  "env_offline = env_live\<lparr>streams_env := (\<lambda>url n. Streams Map.empty)\<rparr>"

definition env_plugin_error :: env where
  "env_plugin_error = env_live\<lparr>streams_env := (\<lambda>url n. PluginError)\<rparr>"

definition env_live_on_third :: env where
  "env_live_on_third =
     env_live\<lparr>streams_env :=
       (\<lambda>url n. if n = 2 then Streams [''best'' \<mapsto> ''hls''] else Streams Map.empty)\<rparr>"

text \<open>Three segments on disk, a transcode that reports success and leaves a
  zero-byte file, and one that writes the final file.\<close>

definition three_segments :: "path list" where
  "three_segments = [''part01.ts'', ''part02.ts'', ''part03.ts'']"

definition segments_world :: world where
  "segments_world =
     \<lparr>files = [''part01.ts'' \<mapsto> ''aaaa'', ''part02.ts'' \<mapsto> ''bb'', ''part03.ts'' \<mapsto> ''c''],
      now = 0, trace = []\<rparr>"

definition env_zero_byte :: env where
  "env_zero_byte = env_live\<lparr>ffmpeg_env := (\<lambda>cmd fs. (Exited 0, fs(''final.mp4'' \<mapsto> [])))\<rparr>"

definition env_ffmpeg_ok :: env where
  "env_ffmpeg_ok = env_live\<lparr>ffmpeg_env := (\<lambda>cmd fs. (Exited 0, fs(''final.mp4'' \<mapsto> ''movie'')))\<rparr>"

text \<open>A session of at most two reconnects; a capture tool that is not installed; a
  capture that leaves nothing, then an empty file, then a file with data.\<close>

definition demo_config :: Config where
  "demo_config =
     \<lparr>channel = ''chan'', output_dir = ''/rec'', quality = ''best'', stream_timeout = 120,
      initial_wait = 90, retry_interval = 30, reconnect_grace_period = 60,
      reconnect_check_interval = 20, max_reconnects = 2, merge_segments_opt = True,
      cleanup_segments = True, ffmpeg_path = ''ffmpeg'',
      streamlink_args = [''--twitch-disable-ads'', ''--twitch-disable-hosting'']\<rparr>"

definition env_tool_missing :: env where
  "env_tool_missing = env_live\<lparr>capture_env := (\<lambda>n cmd fs. (FileNotFoundError, fs))\<rparr>"


text \<open>A channel that is offline at every other lookup; a capture that leaves an empty
  file and then raises; a budget of three reconnects; a capture whose second attempt
  leaves an empty file.\<close>

definition env_alternating :: env where
  "env_alternating =
     env_live\<lparr>streams_env :=
       (\<lambda>url n. if odd n then Streams [''best'' \<mapsto> ''hls''] else Streams Map.empty)\<rparr>"




section \<open>The liveness probe\<close>

text \<open>
  C9. \<open>is_live\<close> answers true whenever the requested quality or the quality
  \<open>best\<close> is among the streams the lookup returned, also when the requested quality
  itself is missing; it answers false when neither is there, and false, not an
  exception, when the lookup raised.
\<close>

theorem is_live_best_or_quality:
  "(streams_env e (TWITCH_URL ch) (probe_count (trace w)) = Streams m \<and>
      (m q \<noteq> None \<or> m ''best'' \<noteq> None) \<longrightarrow> fst (is_live e ch q w)) \<and>
   (streams_env e (TWITCH_URL ch) (probe_count (trace w)) = Streams m \<and>
      m q = None \<and> m ''best'' = None \<longrightarrow> \<not> fst (is_live e ch q w)) \<and>
   (streams_env e (TWITCH_URL ch) (probe_count (trace w))
      \<in> {NoPluginError, PluginError, UnexpectedError} \<longrightarrow> \<not> fst (is_live e ch q w))"
  by (auto simp: is_live_def is_live_answer_def Let_def)

theorem is_live_best_or_quality_witness:
  "fst (is_live env_live ''chan'' ''1080p60'' empty_world) \<and>
   \<not> fst (is_live env_offline ''chan'' ''1080p60'' empty_world) \<and>
   \<not> fst (is_live env_plugin_error ''chan'' ''1080p60'' empty_world)"
  using is_live_best_or_quality [of env_live "''chan''" empty_world "[''best'' \<mapsto> ''hls'']" "''1080p60''"]
    is_live_best_or_quality [of env_offline "''chan''" empty_world Map.empty "''1080p60''"]
    is_live_best_or_quality [of env_plugin_error "''chan''" empty_world Map.empty "''1080p60''"]
  by (simp add: env_live_def env_offline_def env_plugin_error_def)

section \<open>Waiting for the stream to start\<close>

text \<open>
  C10. With a timeout of zero or less, \<open>wait_until_live\<close> returns false and leaves
  the world as it was: the probe is not called once, whatever the channel does.
\<close>

theorem wait_until_live_no_probe:
  "timeout \<le> 0 \<Longrightarrow> wait_until_live e ch q timeout interval w = Some (Inr False, w)"
  by (simp add: wait_until_live_def wait_until_live_loop.simps)

theorem wait_until_live_no_probe_witness:
  "(0::int) \<le> 0 \<and> wait_until_live env_live ''chan'' ''best'' 0 30 empty_world
     = Some (Inr False, empty_world)"
  using wait_until_live_no_probe [of 0 env_live "''chan''" "''best''" 30 empty_world]
  by simp

subsection \<open>The poll loop of \<open>wait_until_live\<close>\<close>

lemma probe_times_append: "probe_times (tr @ tr') = probe_times tr @ probe_times tr'"
  by (induction tr rule: probe_times.induct) auto

lemma is_live_eq:
  "is_live e ch q w = (probe_answer e ch q (probe_count (trace w)),
     w\<lparr>trace := trace w @ [Probed (now w) (probe_answer e ch q (probe_count (trace w)))]\<rparr>)"
  by (simp add: is_live_def probe_answer_def Let_def)

lemma wait_until_live_loop_live:
  assumes "0 \<le> d"
      and "waited + int j * d < timeout"
      and "\<forall>i<j. \<not> probe_answer e ch q (probe_count (trace w) + i)"
      and "probe_answer e ch q (probe_count (trace w) + j)"
  shows "\<exists>w'. wait_until_live_loop e ch q timeout d waited w = Some (Inr True, w') \<and>
           now w' = now w + int j * d \<and> files w' = files w \<and>
           probe_times (trace w') =
             probe_times (trace w) @ map (\<lambda>i. now w + int i * d) [0..<Suc j]"
  using assms
proof (induction j arbitrary: waited w)
  case 0
  then show ?case
    by (subst wait_until_live_loop.simps) (simp add: is_live_eq probe_times_append)
next
  case (Suc j)
  let ?w1 = "w\<lparr>trace := trace w @ [Probed (now w) False]\<rparr>"
  let ?w2 = "?w1\<lparr>now := now w + d, trace := trace ?w1 @ [Slept d]\<rparr>"
  have nn: "0 \<le> int j * d" using Suc.prems(1) by simp
  have sc: "int (Suc j) * d = int j * d + d" by (simp add: algebra_simps)
  have lt: "waited < timeout" "waited + d + int j * d < timeout"
    using nn sc Suc.prems(1,2) by linarith+
  have off: "\<not> probe_answer e ch q (probe_count (trace w))"
    using Suc.prems(3) [rule_format, of 0] by simp
  have cnt: "probe_count (trace ?w2) = Suc (probe_count (trace w))"
    by (simp add: probe_count_def)
  have step: "wait_until_live_loop e ch q timeout d waited w =
      wait_until_live_loop e ch q timeout d (waited + d) ?w2"
    using lt off Suc.prems(1)
    by (subst wait_until_live_loop.simps) (simp add: is_live_eq sleep_def)
  have a: "\<forall>i<j. \<not> probe_answer e ch q (probe_count (trace ?w2) + i)"
    using Suc.prems(3) cnt by (metis Suc_less_eq add_Suc_shift)
  have b: "probe_answer e ch q (probe_count (trace ?w2) + j)"
    using Suc.prems(4) cnt by simp
  obtain w' where w': "wait_until_live_loop e ch q timeout d (waited + d) ?w2 = Some (Inr True, w')"
      "now w' = now ?w2 + int j * d" "files w' = files ?w2"
      "probe_times (trace w') = probe_times (trace ?w2) @ map (\<lambda>i. now ?w2 + int i * d) [0..<Suc j]"
    using Suc.IH [OF Suc.prems(1) lt(2) a b] by blast
  have "map (\<lambda>i. now w + int i * d) [0..<Suc (Suc j)]
      = now w # map (\<lambda>i. now w + d + int i * d) [0..<Suc j]"
    by (subst map_upt_Suc) (simp add: algebra_simps)
  then show ?case
    using step w' by (simp add: probe_times_append algebra_simps)
qed

lemma wait_until_live_loop_never:
  assumes "0 < d"
      and "\<forall>i<n. \<not> probe_answer e ch q (probe_count (trace w) + i)"
      and "timeout \<le> waited + int n * d"
      and "n = 0 \<or> waited + int n * d < timeout + d"
  shows "\<exists>w'. wait_until_live_loop e ch q timeout d waited w = Some (Inr False, w') \<and>
           now w' = now w + int n * d \<and> files w' = files w \<and>
           probe_times (trace w') =
             probe_times (trace w) @ map (\<lambda>i. now w + int i * d) [0..<n]"
  using assms
proof (induction n arbitrary: waited w)
  case 0
  then show ?case
    by (subst wait_until_live_loop.simps) simp
next
  case (Suc n)
  let ?w1 = "w\<lparr>trace := trace w @ [Probed (now w) False]\<rparr>"
  let ?w2 = "?w1\<lparr>now := now w + d, trace := trace ?w1 @ [Slept d]\<rparr>"
  have nn: "0 \<le> int n * d" using Suc.prems(1) by simp
  have sc: "int (Suc n) * d = int n * d + d" by (simp add: algebra_simps)
  have p4: "waited + int (Suc n) * d < timeout + d"
    using Suc.prems(4) by simp
  have lt: "waited < timeout"
    using nn sc p4 by linarith
  have ge: "timeout \<le> waited + d + int n * d"
    using sc Suc.prems(3) by linarith
  have "waited + d + int n * d < timeout + d"
    using sc p4 by linarith
  then have nx: "n = 0 \<or> waited + d + int n * d < timeout + d"
    by simp
  have off: "\<not> probe_answer e ch q (probe_count (trace w))"
    using Suc.prems(2) [rule_format, of 0] by simp
  have cnt: "probe_count (trace ?w2) = Suc (probe_count (trace w))"
    by (simp add: probe_count_def)
  have step: "wait_until_live_loop e ch q timeout d waited w =
      wait_until_live_loop e ch q timeout d (waited + d) ?w2"
    using lt off Suc.prems(1)
    by (subst wait_until_live_loop.simps) (simp add: is_live_eq sleep_def)
  have a: "\<forall>i<n. \<not> probe_answer e ch q (probe_count (trace ?w2) + i)"
    using Suc.prems(2) cnt by (metis Suc_less_eq add_Suc_shift)
  obtain w' where w': "wait_until_live_loop e ch q timeout d (waited + d) ?w2 = Some (Inr False, w')"
      "now w' = now ?w2 + int n * d" "files w' = files ?w2"
      "probe_times (trace w') = probe_times (trace ?w2) @ map (\<lambda>i. now ?w2 + int i * d) [0..<n]"
    using Suc.IH [OF Suc.prems(1) a ge nx] by blast
  have "map (\<lambda>i. now w + int i * d) [0..<Suc n]
      = now w # map (\<lambda>i. now w + d + int i * d) [0..<n]"
    by (subst map_upt_Suc) (simp add: algebra_simps)
  then show ?case
    using step w' by (simp add: probe_times_append algebra_simps del: upt_Suc)
qed

text \<open>
  C7. Let the interval be positive and \<open>n\<close> the number of intervals that cover the
  timeout (the least \<open>n\<close> with \<open>n * interval \<ge> timeout\<close>; it is positive when the
  timeout is). \<open>wait_until_live\<close> probes at once and then every \<open>interval\<close>
  seconds: if the \<open>j\<close>-th probe (\<open>j < n\<close>, counted from 0) is the first that
  succeeds, it returns true after \<open>j * interval\<close> seconds, having probed at
  \<open>0, interval, ..., j * interval\<close> after its start; if none of the \<open>n\<close> probes
  succeeds it returns false after \<open>n * interval \<ge> timeout\<close> seconds of waiting.
  With a timeout of 90, an interval of 30 and a channel live at the third lookup, it
  probes at 0, 30 and 60 and returns true.
\<close>

theorem wait_until_live_schedule:
  assumes "0 < interval"
      and "timeout \<le> int n * interval"
      and "n = 0 \<or> int n * interval < timeout + interval"
  shows "(0 < timeout \<longrightarrow> 0 < n) \<and>
         (\<forall>j<n. (\<forall>i<j. \<not> probe_answer e ch q (probe_count (trace w) + i)) \<and>
                 probe_answer e ch q (probe_count (trace w) + j) \<longrightarrow>
            (\<exists>w'. wait_until_live e ch q timeout interval w = Some (Inr True, w') \<and>
                   now w' = now w + int j * interval \<and>
                   probe_times (trace w') =
                     probe_times (trace w) @ map (\<lambda>i. now w + int i * interval) [0..<Suc j])) \<and>
         ((\<forall>i<n. \<not> probe_answer e ch q (probe_count (trace w) + i)) \<longrightarrow>
            (\<exists>w'. wait_until_live e ch q timeout interval w = Some (Inr False, w') \<and>
                   now w' = now w + int n * interval \<and>
                   probe_times (trace w') =
                     probe_times (trace w) @ map (\<lambda>i. now w + int i * interval) [0..<n]))"
proof (intro conjI allI impI)
  show "0 < n" if "0 < timeout"
    using that assms(2) by (cases n) auto
next
  fix j
  assume j: "j < n"
    and live: "(\<forall>i<j. \<not> probe_answer e ch q (probe_count (trace w) + i)) \<and>
                 probe_answer e ch q (probe_count (trace w) + j)"
  have "int (Suc j) * interval \<le> int n * interval"
    using j assms(1) by (intro mult_right_mono) auto
  moreover have "int (Suc j) * interval = int j * interval + interval"
    by (simp add: algebra_simps)
  ultimately have lt: "0 + int j * interval < timeout"
    using assms(3) j by auto
  show "\<exists>w'. wait_until_live e ch q timeout interval w = Some (Inr True, w') \<and>
                   now w' = now w + int j * interval \<and>
                   probe_times (trace w') =
                     probe_times (trace w) @ map (\<lambda>i. now w + int i * interval) [0..<Suc j]"
    unfolding wait_until_live_def
    using wait_until_live_loop_live [OF _ lt, of e ch q w] assms(1) live by fastforce
next
  assume never: "\<forall>i<n. \<not> probe_answer e ch q (probe_count (trace w) + i)"
  show "\<exists>w'. wait_until_live e ch q timeout interval w = Some (Inr False, w') \<and>
                   now w' = now w + int n * interval \<and>
                   probe_times (trace w') =
                     probe_times (trace w) @ map (\<lambda>i. now w + int i * interval) [0..<n]"
    unfolding wait_until_live_def
    using wait_until_live_loop_never [OF assms(1) never, of timeout 0] assms(2,3) by fastforce
qed

theorem wait_until_live_schedule_witness:
  "(0::int) < 30 \<and> (90::int) \<le> int 3 * 30 \<and> int 3 * 30 < (90::int) + 30 \<and>
   (\<exists>w'. wait_until_live env_live_on_third ''chan'' ''best'' 90 30 empty_world
            = Some (Inr True, w') \<and>
          now w' = 60 \<and> probe_times (trace w') = [0, 30, 60])"
proof -
  have off: "\<forall>i<2. \<not> probe_answer env_live_on_third ''chan'' ''best''
      (probe_count (trace empty_world) + i)"
    by (simp add: probe_answer_def env_live_on_third_def env_live_def is_live_answer_def
        empty_world_def probe_count_def)
  have on: "probe_answer env_live_on_third ''chan'' ''best''
      (probe_count (trace empty_world) + 2)"
    by (simp add: probe_answer_def env_live_on_third_def env_live_def is_live_answer_def
        empty_world_def probe_count_def)
  have "\<exists>w'. wait_until_live env_live_on_third ''chan'' ''best'' 90 30 empty_world
            = Some (Inr True, w') \<and>
          now w' = now empty_world + int 2 * 30 \<and>
          probe_times (trace w') = probe_times (trace empty_world) @
             map (\<lambda>i. now empty_world + int i * 30) [0..<Suc 2]"
  proof -
    have hyp: "(0::int) < 30" "(90::int) \<le> int 3 * 30" "(3::nat) = 0 \<or> int 3 * 30 < (90::int) + 30"
      by simp_all
    have lt: "(2::nat) < 3" by simp
    show ?thesis
      by (rule wait_until_live_schedule [OF hyp, THEN conjunct2, THEN conjunct1, rule_format,
            OF lt conjI [OF off on]])
  qed
  then show ?thesis
    by (simp add: empty_world_def numeral_2_eq_2)
qed

section \<open>Waiting for the stream to return\<close>

lemma wait_for_reconnect_loop_live:
  assumes "0 \<le> d"
      and "waited + int j * d < grace"
      and "\<forall>i<j. \<not> probe_answer e ch q (probe_count (trace w) + i)"
      and "probe_answer e ch q (probe_count (trace w) + j)"
  shows "\<exists>w'. wait_for_reconnect_loop e ch q grace d waited w = Some (Inr True, w') \<and>
           now w' = now w + int (Suc j) * d \<and> files w' = files w \<and>
           probe_times (trace w') =
             probe_times (trace w) @ map (\<lambda>i. now w + int (Suc i) * d) [0..<Suc j]"
  using assms
proof (induction j arbitrary: waited w)
  case 0
  then show ?case
    by (subst wait_for_reconnect_loop.simps)
      (simp add: is_live_eq sleep_def probe_times_append probe_count_def)
next
  case (Suc j)
  let ?w1 = "w\<lparr>now := now w + d, trace := trace w @ [Slept d]\<rparr>"
  let ?w2 = "?w1\<lparr>trace := trace ?w1 @ [Probed (now ?w1) False]\<rparr>"
  have nn: "0 \<le> int j * d" using Suc.prems(1) by simp
  have sc: "int (Suc j) * d = int j * d + d" by (simp add: algebra_simps)
  have lt: "waited < grace" "waited + d + int j * d < grace"
    using nn sc Suc.prems(1,2) by linarith+
  have off: "\<not> probe_answer e ch q (probe_count (trace w))"
    using Suc.prems(3) [rule_format, of 0] by simp
  have cnt1: "probe_count (trace ?w1) = probe_count (trace w)"
    by (simp add: probe_count_def)
  have cnt: "probe_count (trace ?w2) = Suc (probe_count (trace w))"
    by (simp add: probe_count_def)
  have step: "wait_for_reconnect_loop e ch q grace d waited w =
      wait_for_reconnect_loop e ch q grace d (waited + d) ?w2"
    using lt off Suc.prems(1) cnt1
    by (subst wait_for_reconnect_loop.simps) (simp add: is_live_eq sleep_def)
  have a: "\<forall>i<j. \<not> probe_answer e ch q (probe_count (trace ?w2) + i)"
    using Suc.prems(3) cnt by (metis Suc_less_eq add_Suc_shift)
  have b: "probe_answer e ch q (probe_count (trace ?w2) + j)"
    using Suc.prems(4) cnt by simp
  obtain w' where w': "wait_for_reconnect_loop e ch q grace d (waited + d) ?w2 = Some (Inr True, w')"
      "now w' = now ?w2 + int (Suc j) * d" "files w' = files ?w2"
      "probe_times (trace w') =
         probe_times (trace ?w2) @ map (\<lambda>i. now ?w2 + int (Suc i) * d) [0..<Suc j]"
    using Suc.IH [OF Suc.prems(1) lt(2) a b] by blast
  have "map (\<lambda>i. now w + int (Suc i) * d) [0..<Suc (Suc j)]
      = (now w + d) # map (\<lambda>i. now w + d + int (Suc i) * d) [0..<Suc j]"
    by (subst map_upt_Suc) (simp add: algebra_simps)
  then show ?case
    using step w' by (simp add: probe_times_append algebra_simps)
qed

lemma wait_for_reconnect_loop_never:
  assumes "0 < d"
      and "\<forall>i<n. \<not> probe_answer e ch q (probe_count (trace w) + i)"
      and "grace \<le> waited + int n * d"
      and "n = 0 \<or> waited + int n * d < grace + d"
  shows "\<exists>w'. wait_for_reconnect_loop e ch q grace d waited w = Some (Inr False, w') \<and>
           now w' = now w + int n * d \<and> files w' = files w \<and>
           probe_times (trace w') =
             probe_times (trace w) @ map (\<lambda>i. now w + int (Suc i) * d) [0..<n]"
  using assms
proof (induction n arbitrary: waited w)
  case 0
  then show ?case
    by (subst wait_for_reconnect_loop.simps) simp
next
  case (Suc n)
  let ?w1 = "w\<lparr>now := now w + d, trace := trace w @ [Slept d]\<rparr>"
  let ?w2 = "?w1\<lparr>trace := trace ?w1 @ [Probed (now ?w1) False]\<rparr>"
  have nn: "0 \<le> int n * d" using Suc.prems(1) by simp
  have sc: "int (Suc n) * d = int n * d + d" by (simp add: algebra_simps)
  have p4: "waited + int (Suc n) * d < grace + d"
    using Suc.prems(4) by simp
  have lt: "waited < grace"
    using nn sc p4 by linarith
  have ge: "grace \<le> waited + d + int n * d"
    using sc Suc.prems(3) by linarith
  have "waited + d + int n * d < grace + d"
    using sc p4 by linarith
  then have nx: "n = 0 \<or> waited + d + int n * d < grace + d"
    by simp
  have off: "\<not> probe_answer e ch q (probe_count (trace w))"
    using Suc.prems(2) [rule_format, of 0] by simp
  have cnt1: "probe_count (trace ?w1) = probe_count (trace w)"
    by (simp add: probe_count_def)
  have cnt: "probe_count (trace ?w2) = Suc (probe_count (trace w))"
    by (simp add: probe_count_def)
  have step: "wait_for_reconnect_loop e ch q grace d waited w =
      wait_for_reconnect_loop e ch q grace d (waited + d) ?w2"
    using lt off Suc.prems(1) cnt1
    by (subst wait_for_reconnect_loop.simps) (simp add: is_live_eq sleep_def)
  have a: "\<forall>i<n. \<not> probe_answer e ch q (probe_count (trace ?w2) + i)"
    using Suc.prems(2) cnt by (metis Suc_less_eq add_Suc_shift)
  obtain w' where w': "wait_for_reconnect_loop e ch q grace d (waited + d) ?w2 = Some (Inr False, w')"
      "now w' = now ?w2 + int n * d" "files w' = files ?w2"
      "probe_times (trace w') =
         probe_times (trace ?w2) @ map (\<lambda>i. now ?w2 + int (Suc i) * d) [0..<n]"
    using Suc.IH [OF Suc.prems(1) a ge nx] by blast
  have "map (\<lambda>i. now w + int (Suc i) * d) [0..<Suc n]
      = (now w + d) # map (\<lambda>i. now w + d + int (Suc i) * d) [0..<n]"
    by (subst map_upt_Suc) (simp add: algebra_simps)
  then show ?case
    using step w' by (simp add: probe_times_append algebra_simps del: upt_Suc)
qed

text \<open>
  C8. Let the check interval be positive and \<open>n\<close> the number of intervals that cover
  the grace period. \<open>wait_for_reconnect\<close> sleeps one interval before each probe, the
  first included: if the \<open>j\<close>-th probe (\<open>j < n\<close>, counted from 0) is the first that
  succeeds, it returns true after \<open>(j + 1) * check_interval\<close> seconds; if none of the
  \<open>n\<close> probes succeeds it returns false after \<open>n * check_interval \<ge> grace\<close>
  seconds. With a grace period of 60, an interval of 20 and a channel that stays
  offline, it probes three times, at 20, 40 and 60, and returns false at 60.
\<close>

theorem wait_for_reconnect_schedule:
  assumes "0 < check_interval"
      and "grace \<le> int n * check_interval"
      and "n = 0 \<or> int n * check_interval < grace + check_interval"
  shows "(\<forall>j<n. (\<forall>i<j. \<not> probe_answer e ch q (probe_count (trace w) + i)) \<and>
                 probe_answer e ch q (probe_count (trace w) + j) \<longrightarrow>
            (\<exists>w'. wait_for_reconnect e ch q grace check_interval w = Some (Inr True, w') \<and>
                   now w' = now w + int (Suc j) * check_interval \<and>
                   probe_times (trace w') =
                     probe_times (trace w) @
                       map (\<lambda>i. now w + int (Suc i) * check_interval) [0..<Suc j])) \<and>
         ((\<forall>i<n. \<not> probe_answer e ch q (probe_count (trace w) + i)) \<longrightarrow>
            (\<exists>w'. wait_for_reconnect e ch q grace check_interval w = Some (Inr False, w') \<and>
                   now w' = now w + int n * check_interval \<and>
                   probe_times (trace w') =
                     probe_times (trace w) @
                       map (\<lambda>i. now w + int (Suc i) * check_interval) [0..<n]))"
proof (intro conjI allI impI)
  fix j
  assume j: "j < n"
    and live: "(\<forall>i<j. \<not> probe_answer e ch q (probe_count (trace w) + i)) \<and>
                 probe_answer e ch q (probe_count (trace w) + j)"
  have "int (Suc j) * check_interval \<le> int n * check_interval"
    using j assms(1) by (intro mult_right_mono) auto
  moreover have "int (Suc j) * check_interval = int j * check_interval + check_interval"
    by (simp add: algebra_simps)
  ultimately have lt: "0 + int j * check_interval < grace"
    using assms(3) j by auto
  show "\<exists>w'. wait_for_reconnect e ch q grace check_interval w = Some (Inr True, w') \<and>
                   now w' = now w + int (Suc j) * check_interval \<and>
                   probe_times (trace w') =
                     probe_times (trace w) @
                       map (\<lambda>i. now w + int (Suc i) * check_interval) [0..<Suc j]"
    unfolding wait_for_reconnect_def
    using wait_for_reconnect_loop_live [OF _ lt, of e ch q w] assms(1) live by fastforce
next
  assume never: "\<forall>i<n. \<not> probe_answer e ch q (probe_count (trace w) + i)"
  show "\<exists>w'. wait_for_reconnect e ch q grace check_interval w = Some (Inr False, w') \<and>
                   now w' = now w + int n * check_interval \<and>
                   probe_times (trace w') =
                     probe_times (trace w) @
                       map (\<lambda>i. now w + int (Suc i) * check_interval) [0..<n]"
    unfolding wait_for_reconnect_def
    using wait_for_reconnect_loop_never [OF assms(1) never, of grace 0] assms(2,3) by fastforce
qed

theorem wait_for_reconnect_schedule_witness:
  "(0::int) < 20 \<and> (60::int) \<le> int 3 * 20 \<and> int 3 * 20 < (60::int) + 20 \<and>
   (\<exists>w'. wait_for_reconnect env_offline ''chan'' ''best'' 60 20 empty_world
            = Some (Inr False, w') \<and>
          now w' = 60 \<and> probe_times (trace w') = [20, 40, 60])"
proof -
  have off: "\<forall>i<3. \<not> probe_answer env_offline ''chan'' ''best''
      (probe_count (trace empty_world) + i)"
    by (simp add: probe_answer_def env_offline_def env_live_def is_live_answer_def)
  have "\<exists>w'. wait_for_reconnect env_offline ''chan'' ''best'' 60 20 empty_world
            = Some (Inr False, w') \<and>
          now w' = now empty_world + int 3 * 20 \<and>
          probe_times (trace w') = probe_times (trace empty_world) @
             map (\<lambda>i. now empty_world + int (Suc i) * 20) [0..<3]"
  proof -
    have hyp: "(0::int) < 20" "(60::int) \<le> int 3 * 20" "(3::nat) = 0 \<or> int 3 * 20 < (60::int) + 20"
      by simp_all
    show ?thesis
      by (rule wait_for_reconnect_schedule [OF hyp, THEN conjunct2, THEN mp, OF off])
  qed
  then show ?thesis
    by (simp add: empty_world_def numeral_3_eq_3)
qed

section \<open>Consolidation\<close>

subsection \<open>What the transcode step leaves behind\<close>

lemma transcodes_append: "transcodes (tr @ tr') = transcodes tr @ transcodes tr'"
  by (induction tr rule: transcodes.induct) auto

lemma unlinks_append: "unlinks (tr @ tr') = unlinks tr @ unlinks tr'"
  by (induction tr rule: unlinks.induct) auto

lemma transcodes_Unlinked: "transcodes (map Unlinked ps) = []"
  by (induction ps) auto

lemma cleanup_trace: "trace (cleanup ps w) = trace w @ map Unlinked ps"
  by (induction ps arbitrary: w) (auto simp: unlink_def)

lemma cleanup_files: "files (cleanup ps w) p = (if p \<in> set ps then None else files w p)"
  by (induction ps arbitrary: w) (auto simp: unlink_def)

lemma run_ffmpeg_trace:
  "trace (snd (run_ffmpeg e cmd ff w)) = trace w @ [Transcoded cmd (fst (ffmpeg_env e cmd (files w)))]"
  by (auto simp: run_ffmpeg_def Let_def split: prod.split proc_outcome.split)

lemma run_ffmpeg_files:
  "files (snd (run_ffmpeg e cmd ff w)) = snd (ffmpeg_env e cmd (files w))"
  by (auto simp: run_ffmpeg_def Let_def split: prod.split proc_outcome.split)

lemma run_ffmpeg_result:
  "fst (run_ffmpeg e cmd ff w) =
     (case fst (ffmpeg_env e cmd (files w)) of
        Exited rc \<Rightarrow> Inr (rc = 0) | FileNotFoundError \<Rightarrow> Inr False
      | TimeoutExpired \<Rightarrow> Inr False | OtherException \<Rightarrow> Inl UncaughtError)"
  by (auto simp: run_ffmpeg_def Let_def split: prod.split proc_outcome.split)

lemma merge_segments_snd:
  "snd (merge_segments e segs fin ff w) =
     unlink (tmp_env e (files w))
       (snd (run_ffmpeg e (concat_cmd ff (tmp_env e (files w)) fin) ff
          (w\<lparr>files := (files w)(tmp_env e (files w) \<mapsto> concat (map concat_line segs)),
             trace := trace w @ [Wrote (tmp_env e (files w)) (concat (map concat_line segs))]\<rparr>)))"
  by (simp add: merge_segments_def Let_def case_prod_beta)

lemma merge_segments_fst:
  "fst (merge_segments e segs fin ff w) =
       fst (run_ffmpeg e (concat_cmd ff (tmp_env e (files w)) fin) ff
          (w\<lparr>files := (files w)(tmp_env e (files w) \<mapsto> concat (map concat_line segs)),
             trace := trace w @ [Wrote (tmp_env e (files w)) (concat (map concat_line segs))]\<rparr>))"
  by (simp add: merge_segments_def Let_def case_prod_beta)

lemma merge_segments_trace:
  "trace (snd (merge_segments e segs fin ff w)) =
     trace w @ [Wrote (tmp_env e (files w)) (concat (map concat_line segs)),
       Transcoded (concat_cmd ff (tmp_env e (files w)) fin)
         (fst (ffmpeg_env e (concat_cmd ff (tmp_env e (files w)) fin)
            ((files w)(tmp_env e (files w) \<mapsto> concat (map concat_line segs))))),
       Unlinked (tmp_env e (files w))]"
  by (simp add: merge_segments_snd unlink_def run_ffmpeg_trace)

lemma merge_segments_files:
  "files (snd (merge_segments e segs fin ff w)) =
     (snd (ffmpeg_env e (concat_cmd ff (tmp_env e (files w)) fin)
            ((files w)(tmp_env e (files w) \<mapsto> concat (map concat_line segs)))))
       (tmp_env e (files w) := None)"
  by (simp add: merge_segments_snd unlink_def run_ffmpeg_files)

lemma postprocess_attempt:
  assumes "segs \<noteq> []" "length segs = 1 \<or> mrg"
  shows "postprocess e segs fin mrg cln ff w =
     (case (if length segs = 1 then remux_single e (segs ! 0) fin ff w
        else merge_segments e segs fin ff w) of
        (Inl err, w1) \<Rightarrow> (Inl err, w1)
      | (Inr success, w1) \<Rightarrow>
          if success \<and> exists_nonempty w1 fin
          then (Inr (Some fin), if cln then cleanup segs w1 else w1)
          else (Inr None, w1))"
  using assms by (auto simp: postprocess_def Let_def split: prod.split sum.split)

lemma attempt_trace:
  "\<exists>cmd fs pre post. set post \<subseteq> {Unlinked (tmp_env e (files w))} \<and>
     (\<forall>ev\<in>set pre. \<exists>p c. ev = Wrote p c) \<and>
     trace (snd (if length segs = 1 then remux_single e (segs ! 0) fin ff w
        else merge_segments e segs fin ff w)) =
       trace w @ pre @ [Transcoded cmd (fst (ffmpeg_env e cmd fs))] @ post \<and>
     fst (if length segs = 1 then remux_single e (segs ! 0) fin ff w
        else merge_segments e segs fin ff w) =
      (case fst (ffmpeg_env e cmd fs) of
        Exited rc \<Rightarrow> Inr (rc = 0) | FileNotFoundError \<Rightarrow> Inr False
      | TimeoutExpired \<Rightarrow> Inr False | OtherException \<Rightarrow> Inl UncaughtError)"
proof (cases "length segs = 1")
  case True
  show ?thesis
    apply (rule exI [of _ "remux_cmd ff (segs ! 0) fin"])
    apply (rule exI [of _ "files w"])
    apply (rule exI [of _ "[]"])
    apply (rule exI [of _ "[]"])
    using True by (simp add: remux_single_def run_ffmpeg_trace run_ffmpeg_result)
next
  case False
  show ?thesis
    apply (rule exI [of _ "concat_cmd ff (tmp_env e (files w)) fin"])
    apply (rule exI [of _ "(files w)(tmp_env e (files w) \<mapsto> concat (map concat_line segs))"])
    apply (rule exI [of _ "[Wrote (tmp_env e (files w)) (concat (map concat_line segs))]"])
    apply (rule exI [of _ "[Unlinked (tmp_env e (files w))]"])
    using False by (simp add: merge_segments_trace merge_segments_fst run_ffmpeg_result)
qed

lemma attempt_files:
  assumes "tmp_env e (files w) \<notin> set segs"
      and "\<forall>cmd fs. \<forall>s\<in>set segs. snd (ffmpeg_env e cmd fs) s = fs s"
      and "s \<in> set segs"
  shows "files (snd (if length segs = 1 then remux_single e (segs ! 0) fin ff w
        else merge_segments e segs fin ff w)) s = files w s"
  using assms by (auto simp: remux_single_def run_ffmpeg_files merge_segments_files)

lemma unlinks_Wrote: "\<forall>ev\<in>set pre. \<exists>p c. ev = Wrote p c \<Longrightarrow> unlinks pre = []"
  by (induction pre) auto

lemma unlinks_post: "set post \<subseteq> {Unlinked t} \<Longrightarrow> set (unlinks post) \<subseteq> {t}"
  by (induction post) auto

subsection \<open>Segments are only deleted after verification\<close>

text \<open>
  C1. For a non-empty segment list, with the transcode tool leaving the segments alone
  and the list file not named like a segment: if \<open>postprocess\<close> changed or unlinked
  any segment, then it returned the final path, deletion was enabled, and the final
  file exists with size > 0 (it was verified before the deletion). Whenever the transcode
  ended with a non-zero exit code, a missing binary or a timeout, and whenever the final
  file is missing or empty after a transcode, the result is \<open>None\<close> and every segment
  is as it was.
\<close>

theorem postprocess_keeps_segments:
  assumes nonempty: "segs \<noteq> []"
      and tmp: "tmp_env e (files w) \<notin> set segs"
      and frame: "\<forall>cmd fs. \<forall>s\<in>set segs. snd (ffmpeg_env e cmd fs) s = fs s"
      and post: "postprocess e segs fin mrg cln ff w = (r, w')"
  shows "((\<exists>s\<in>set segs. files w' s \<noteq> files w s \<or>
             s \<in> set (unlinks (drop (length (trace w)) (trace w')))) \<longrightarrow>
            r = Inr (Some fin) \<and> cln \<and> (fin \<notin> set segs \<longrightarrow> exists_nonempty w' fin)) \<and>
         (\<forall>cmd out. Transcoded cmd out \<in> set (drop (length (trace w)) (trace w')) \<and>
            out \<noteq> Exited 0 \<and> out \<noteq> OtherException \<longrightarrow>
            r = Inr None \<and> (\<forall>s\<in>set segs. files w' s = files w s)) \<and>
         ((length segs = 1 \<or> mrg) \<and> fin \<notin> set segs \<and> \<not> exists_nonempty w' fin \<and>
            r \<noteq> Inl UncaughtError \<longrightarrow>
            r = Inr None \<and> (\<forall>s\<in>set segs. files w' s = files w s))"
proof (cases "length segs = 1 \<or> mrg")
  case False
  with nonempty post have "r = Inr (Some (segs ! 0))" "w' = w"
    by (auto simp: postprocess_def)
  then show ?thesis using False by simp
next
  case True
  let ?A = "if length segs = 1 then remux_single e (segs ! 0) fin ff w
        else merge_segments e segs fin ff w"
  obtain ra w1 where A: "?A = (ra, w1)" by (cases ?A)
  obtain cmd0 fs0 pre pst where
      pst: "set pst \<subseteq> {Unlinked (tmp_env e (files w))}"
    and pre: "\<forall>ev\<in>set pre. \<exists>p c. ev = Wrote p c"
    and tr1: "trace w1 = trace w @ pre @ [Transcoded cmd0 (fst (ffmpeg_env e cmd0 fs0))] @ pst"
    and ra: "ra = (case fst (ffmpeg_env e cmd0 fs0) of
        Exited rc \<Rightarrow> Inr (rc = 0) | FileNotFoundError \<Rightarrow> Inr False
      | TimeoutExpired \<Rightarrow> Inr False | OtherException \<Rightarrow> Inl UncaughtError)"
    using attempt_trace [of e w segs fin ff] A by auto
  have files1: "\<forall>s\<in>set segs. files w1 s = files w s"
    using attempt_files [OF tmp frame, of _ fin ff] A by auto
  have unl1: "\<forall>s\<in>set segs. s \<notin> set (unlinks (pre @ [Transcoded cmd0 (fst (ffmpeg_env e cmd0 fs0))] @ pst))"
    using unlinks_post [OF pst] unlinks_Wrote [OF pre] tmp by (auto simp: unlinks_append)
  have eq: "(r, w') = (case (ra, w1) of
        (Inl err, w1) \<Rightarrow> (Inl err, w1)
      | (Inr success, w1) \<Rightarrow>
          if success \<and> exists_nonempty w1 fin
          then (Inr (Some fin), if cln then cleanup segs w1 else w1)
          else (Inr None, w1))"
    using postprocess_attempt [OF nonempty True, of e fin cln ff w] post A by simp
  show ?thesis
  proof (cases "\<exists>b. ra = Inr b \<and> b \<and> exists_nonempty w1 fin")
    case False
    then have rw: "w' = w1" "r = Inr None \<or> r = Inl UncaughtError"
      "r = Inl UncaughtError \<longleftrightarrow> fst (ffmpeg_env e cmd0 fs0) = OtherException"
      using eq ra by (auto split: sum.splits proc_outcome.splits if_splits)
    have new: "drop (length (trace w)) (trace w') =
        pre @ [Transcoded cmd0 (fst (ffmpeg_env e cmd0 fs0))] @ pst"
      using rw tr1 by simp
    have tc: "\<And>cmd out. Transcoded cmd out \<in> set (drop (length (trace w)) (trace w')) \<Longrightarrow>
        out = fst (ffmpeg_env e cmd0 fs0)"
      unfolding new using pre pst by auto
    show ?thesis
      using rw files1 unl1 new tc by (auto simp del: append_assoc)
  next
    case True
    then have ra': "ra = Inr True" and ex: "exists_nonempty w1 fin" by auto
    have out0: "fst (ffmpeg_env e cmd0 fs0) = Exited 0"
      using ra ra' by (auto split: proc_outcome.splits)
    have r: "r = Inr (Some fin)" and w': "w' = (if cln then cleanup segs w1 else w1)"
      using eq ra' ex by auto
    have new: "drop (length (trace w)) (trace w') =
        pre @ [Transcoded cmd0 (Exited 0)] @ pst @ (if cln then map Unlinked segs else [])"
      using w' tr1 out0 by (simp add: cleanup_trace)
    have tc: "\<And>cmd out. Transcoded cmd out \<in> set (drop (length (trace w)) (trace w')) \<Longrightarrow>
        out = Exited 0"
      unfolding new using pre pst by (auto split: if_splits)
    have ex': "fin \<notin> set segs \<Longrightarrow> exists_nonempty w' fin"
      using ex w' by (simp add: exists_nonempty_def cleanup_files)
    have keep: "\<not> cln \<Longrightarrow> \<forall>s\<in>set segs. files w' s = files w s \<and>
        s \<notin> set (unlinks (drop (length (trace w)) (trace w')))"
      using w' files1 unl1 tr1 by simp
    show ?thesis
      using r ex' keep tc by blast
  qed
qed

theorem postprocess_keeps_segments_witness:
  "three_segments \<noteq> [] \<and>
   tmp_env env_zero_byte (files segments_world) \<notin> set three_segments \<and>
   fst (postprocess env_zero_byte three_segments ''final.mp4'' True True ''ffmpeg''
          segments_world) = Inr None \<and>
   map (files (snd (postprocess env_zero_byte three_segments ''final.mp4'' True True ''ffmpeg''
                      segments_world))) three_segments
     = map (files segments_world) three_segments"
proof -
  let ?p = "postprocess env_zero_byte three_segments ''final.mp4'' True True ''ffmpeg''
              segments_world"
  have ne: "three_segments \<noteq> []"
    by (simp add: three_segments_def)
  have tmp: "tmp_env env_zero_byte (files segments_world) \<notin> set three_segments"
    by (simp add: three_segments_def env_zero_byte_def env_live_def)
  have frame: "\<forall>cmd fs. \<forall>s\<in>set three_segments. snd (ffmpeg_env env_zero_byte cmd fs) s = fs s"
    by (simp add: three_segments_def env_zero_byte_def env_live_def)
  have fin: "''final.mp4'' \<notin> set three_segments" "length three_segments = 1 \<or> True"
    by (simp_all add: three_segments_def)
  have ev: "fst ?p \<noteq> Inl UncaughtError" "\<not> exists_nonempty (snd ?p) ''final.mp4''"
    by (simp_all add: postprocess_def merge_segments_def run_ffmpeg_def unlink_def
        exists_nonempty_def three_segments_def segments_world_def env_zero_byte_def
        env_live_def Let_def)
  have "fst ?p = Inr None \<and> (\<forall>s\<in>set three_segments. files (snd ?p) s = files segments_world s)"
    using postprocess_keeps_segments [OF ne tmp frame, of "''final.mp4''" True True "''ffmpeg''"
        "fst ?p" "snd ?p"] fin ev
    by simp
  then show ?thesis
    using ne tmp by simp
qed

subsection \<open>Which transcode is run\<close>

lemma postprocess_trace:
  "postprocess e [] fin mrg cln ff w = (Inr None, w) \<and>
   transcodes (trace (snd (postprocess e [s] fin mrg cln ff w)))
     = transcodes (trace w) @ [remux_cmd ff s fin] \<and>
   (2 \<le> length segs \<longrightarrow>
      transcodes (trace (snd (postprocess e segs fin True cln ff w)))
        = transcodes (trace w) @ [concat_cmd ff (tmp_env e (files w)) fin] \<and>
      take (length (trace w) + 3) (trace (snd (postprocess e segs fin True cln ff w)))
        = trace w @
          [Wrote (tmp_env e (files w)) (concat (map concat_line segs)),
           Transcoded (concat_cmd ff (tmp_env e (files w)) fin)
             (fst (ffmpeg_env e (concat_cmd ff (tmp_env e (files w)) fin)
                ((files w)(tmp_env e (files w) \<mapsto> concat (map concat_line segs))))),
           Unlinked (tmp_env e (files w))])"
proof (intro conjI impI)
  show "postprocess e [] fin mrg cln ff w = (Inr None, w)"
    by (simp add: postprocess_def)
next
  have "postprocess e [s] fin mrg cln ff w =
     (case remux_single e s fin ff w of
        (Inl err, w1) \<Rightarrow> (Inl err, w1)
      | (Inr success, w1) \<Rightarrow>
          if success \<and> exists_nonempty w1 fin
          then (Inr (Some fin), if cln then cleanup [s] w1 else w1)
          else (Inr None, w1))"
    using postprocess_attempt [of "[s]" mrg e fin cln ff w] by simp
  moreover have "trace (snd (remux_single e s fin ff w))
      = trace w @ [Transcoded (remux_cmd ff s fin) (fst (ffmpeg_env e (remux_cmd ff s fin) (files w)))]"
    by (simp add: remux_single_def run_ffmpeg_trace)
  ultimately show "transcodes (trace (snd (postprocess e [s] fin mrg cln ff w)))
     = transcodes (trace w) @ [remux_cmd ff s fin]"
    by (auto simp: transcodes_append unlink_def split: prod.splits sum.splits)
next
  assume len: "2 \<le> length segs"
  then have ne: "segs \<noteq> []" "length segs \<noteq> 1" by auto
  have eq: "postprocess e segs fin True cln ff w =
     (case merge_segments e segs fin ff w of
        (Inl err, w1) \<Rightarrow> (Inl err, w1)
      | (Inr success, w1) \<Rightarrow>
          if success \<and> exists_nonempty w1 fin
          then (Inr (Some fin), if cln then cleanup segs w1 else w1)
          else (Inr None, w1))"
    using postprocess_attempt [of segs True e fin cln ff w] ne by simp
  have "\<exists>ps. trace (snd (postprocess e segs fin True cln ff w))
      = trace (snd (merge_segments e segs fin ff w)) @ map Unlinked ps"
  proof (cases "merge_segments e segs fin ff w")
    case (Pair ra w1)
    show ?thesis
    proof (cases "\<exists>b. ra = Inr b \<and> b \<and> exists_nonempty w1 fin \<and> cln")
      case True
      then have "snd (postprocess e segs fin True cln ff w) = cleanup segs w1"
        using eq Pair by auto
      then show ?thesis using Pair by (auto simp: cleanup_trace)
    next
      case False
      then have "snd (postprocess e segs fin True cln ff w) = w1"
        using eq Pair by (auto split: sum.splits)
      then have "trace (snd (postprocess e segs fin True cln ff w))
          = trace (snd (merge_segments e segs fin ff w)) @ map Unlinked []"
        using Pair by simp
      then show ?thesis by blast
    qed
  qed
  then obtain ps where ps: "trace (snd (postprocess e segs fin True cln ff w))
      = trace (snd (merge_segments e segs fin ff w)) @ map Unlinked ps" by blast
  show "transcodes (trace (snd (postprocess e segs fin True cln ff w)))
        = transcodes (trace w) @ [concat_cmd ff (tmp_env e (files w)) fin]"
    by (simp add: ps merge_segments_trace transcodes_append transcodes_Unlinked)
  show "take (length (trace w) + 3) (trace (snd (postprocess e segs fin True cln ff w)))
        = trace w @
          [Wrote (tmp_env e (files w)) (concat (map concat_line segs)),
           Transcoded (concat_cmd ff (tmp_env e (files w)) fin)
             (fst (ffmpeg_env e (concat_cmd ff (tmp_env e (files w)) fin)
                ((files w)(tmp_env e (files w) \<mapsto> concat (map concat_line segs))))),
           Unlinked (tmp_env e (files w))]"
    by (simp add: ps merge_segments_trace)
qed


text \<open>
  C5. An empty segment list gives \<open>None\<close> and leaves the world as it was (no tool is
  run). A single segment runs exactly one transcode, the single-file remux
  \<open>ffmpeg -i src -c copy -movflags +faststart dest -y\<close>, whatever the merge flag. Two
  or more segments with merging enabled first write the list file, whose content is the
  line \<open>file '<segment>'\<close> for each segment in the order of the list, then run exactly
  one transcode, \<open>ffmpeg -f concat -safe 0 -i <list file> -c copy -movflags +faststart
  dest -y\<close>, on the files that hold it, and then remove the list file.
\<close>

theorem postprocess_dispatch:
  "postprocess e [] fin mrg cln ff w = (Inr None, w) \<and>
   transcodes (trace (snd (postprocess e [s] fin mrg cln ff w)))
     = transcodes (trace w) @
         [[ff, ''-i'', s, ''-c'', ''copy'', ''-movflags'', ''+faststart'', fin, ''-y'']] \<and>
   (2 \<le> length segs \<longrightarrow>
      transcodes (trace (snd (postprocess e segs fin True cln ff w)))
        = transcodes (trace w) @
            [[ff, ''-f'', ''concat'', ''-safe'', ''0'', ''-i'', tmp_env e (files w),
              ''-c'', ''copy'', ''-movflags'', ''+faststart'', fin, ''-y'']] \<and>
      take (length (trace w) + 3) (trace (snd (postprocess e segs fin True cln ff w)))
        = trace w @
          [Wrote (tmp_env e (files w))
             (concat (map (\<lambda>seg. ''file '' @ [CHR 0x27] @ seg @ [CHR 0x27, CHR 0x0A]) segs)),
           Transcoded
             [ff, ''-f'', ''concat'', ''-safe'', ''0'', ''-i'', tmp_env e (files w),
              ''-c'', ''copy'', ''-movflags'', ''+faststart'', fin, ''-y'']
             (fst (ffmpeg_env e
                [ff, ''-f'', ''concat'', ''-safe'', ''0'', ''-i'', tmp_env e (files w),
                 ''-c'', ''copy'', ''-movflags'', ''+faststart'', fin, ''-y'']
                ((files w)(tmp_env e (files w) \<mapsto>
                   concat (map (\<lambda>seg. ''file '' @ [CHR 0x27] @ seg @ [CHR 0x27, CHR 0x0A])
                     segs))))),
           Unlinked (tmp_env e (files w))])"
  using postprocess_trace [of e fin mrg cln ff w s segs]
  unfolding remux_cmd_def concat_cmd_def concat_line_def
  by simp

theorem postprocess_dispatch_witness:
  "transcodes (trace (snd (postprocess env_ffmpeg_ok [''part01.ts''] ''final.mp4'' True True
       ''ffmpeg'' segments_world)))
     = [[''ffmpeg'', ''-i'', ''part01.ts'', ''-c'', ''copy'', ''-movflags'', ''+faststart'',
         ''final.mp4'', ''-y'']] \<and>
   2 \<le> length three_segments \<and>
   transcodes (trace (snd (postprocess env_ffmpeg_ok three_segments ''final.mp4'' True True
       ''ffmpeg'' segments_world)))
     = [[''ffmpeg'', ''-f'', ''concat'', ''-safe'', ''0'', ''-i'', ''/tmp/tmpconcat.txt'',
         ''-c'', ''copy'', ''-movflags'', ''+faststart'', ''final.mp4'', ''-y'']] \<and>
   take 3 (trace (snd (postprocess env_ffmpeg_ok three_segments ''final.mp4'' True True
       ''ffmpeg'' segments_world)))
     = [Wrote ''/tmp/tmpconcat.txt''
          (''file '' @ [CHR 0x27] @ ''part01.ts'' @ [CHR 0x27, CHR 0x0A] @
           ''file '' @ [CHR 0x27] @ ''part02.ts'' @ [CHR 0x27, CHR 0x0A] @
           ''file '' @ [CHR 0x27] @ ''part03.ts'' @ [CHR 0x27, CHR 0x0A]),
        Transcoded
          [''ffmpeg'', ''-f'', ''concat'', ''-safe'', ''0'', ''-i'', ''/tmp/tmpconcat.txt'',
           ''-c'', ''copy'', ''-movflags'', ''+faststart'', ''final.mp4'', ''-y'']
          (Exited 0),
        Unlinked ''/tmp/tmpconcat.txt'']"
  using postprocess_dispatch [of env_ffmpeg_ok "''final.mp4''" True True "''ffmpeg''"
      segments_world "''part01.ts''" three_segments]
  by (simp add: three_segments_def segments_world_def env_ffmpeg_ok_def env_live_def)

subsection \<open>Merging disabled\<close>

text \<open>
  C6. With two or more segments and merging disabled, \<open>postprocess\<close> returns the
  first segment and leaves the world as it was: no transcode is run and no file is
  deleted, whether or not deletion on success is enabled.
\<close>

theorem postprocess_merge_disabled:
  "2 \<le> length segs \<Longrightarrow>
     postprocess e segs fin False cln ff w = (Inr (Some (segs ! 0)), w)"
  by (auto simp: postprocess_def)

theorem postprocess_merge_disabled_witness:
  "2 \<le> length [''part01.ts'', ''part02.ts''] \<and>
   postprocess env_live [''part01.ts'', ''part02.ts''] ''final.mp4'' False True ''ffmpeg''
     empty_world = (Inr (Some ''part01.ts''), empty_world)"
  using postprocess_merge_disabled
    [of "[''part01.ts'', ''part02.ts'']" env_live "''final.mp4''" True "''ffmpeg''" empty_world]
  by simp

section \<open>The session loop\<close>

subsection \<open>One capture attempt\<close>

lemma steps_append: "steps (tr @ tr') = steps tr @ steps tr'"
  by (induction tr rule: steps.induct) auto

lemma confirmed_reconnects_append:
  "confirmed_reconnects (tr @ tr') = confirmed_reconnects tr + confirmed_reconnects tr'"
  by (induction tr rule: confirmed_reconnects.induct) auto

lemma record_segment_config: "config (fst (snd (record_segment e s w))) = config s"
  by (simp add: record_segment_def Let_def split: prod.split proc_outcome.split)

lemma record_segment_session_date:
  "session_date (fst (snd (record_segment e s w))) = session_date s"
  by (simp add: record_segment_def Let_def split: prod.split proc_outcome.split)

lemma record_segment_reconnect_count:
  "reconnect_count (fst (snd (record_segment e s w))) = reconnect_count s"
  by (simp add: record_segment_def Let_def split: prod.split proc_outcome.split)

lemma record_segment_steps:
  "steps (trace (snd (snd (record_segment e s w)))) = steps (trace w) @ [Capture]"
  by (simp add: record_segment_def Let_def unlink_def steps_append
      split: prod.split proc_outcome.split)

lemma record_segment_confirmed:
  "confirmed_reconnects (trace (snd (snd (record_segment e s w)))) = confirmed_reconnects (trace w)"
  by (simp add: record_segment_def Let_def unlink_def confirmed_reconnects_append
      split: prod.split proc_outcome.split)

lemma record_segment_segments:
  "segments (fst (snd (record_segment e s w))) = segments s \<or>
   segments (fst (snd (record_segment e s w))) = segments s @ [next_segment_path s]"
  by (simp add: record_segment_def Let_def split: prod.split proc_outcome.split)


lemma wait_for_reconnect_loop_confirmed:
  assumes "wait_for_reconnect_loop e0 ch0 q0 g0 d0 waited0 w0 = Some y0"
  shows "confirmed_reconnects (trace (snd y0)) =
       confirmed_reconnects (trace w0) + (if fst y0 = Inr True then 1 else 0)"
proof (rule wait_for_reconnect_loop.raw_induct
    [where P = "\<lambda>e ch q g d waited w y. confirmed_reconnects (trace (snd y)) =
       confirmed_reconnects (trace w) + (if fst y = Inr True then 1 else 0)", OF _ assms],
    goal_cases)
  case (1 loop e ch q g d waited w y)
  show ?case
  proof (cases "waited < g")
    case False
    with 1(2) show ?thesis by auto
  next
    case True
    show ?thesis
    proof (cases "d < 0")
      case neg: True
      with True 1(2) show ?thesis by (auto simp: sleep_def)
    next
      case nonneg: False
      let ?w1 = "w\<lparr>now := now w + d, trace := trace w @ [Slept d]\<rparr>"
      obtain b w2 where live: "is_live e ch q ?w1 = (b, w2)"
        by (cases "is_live e ch q ?w1")
      have w2: "confirmed_reconnects (trace w2) =
          confirmed_reconnects (trace w) + (if b then 1 else 0)"
        using live by (auto simp: is_live_def Let_def confirmed_reconnects_append)
      have body: "(if b then Some (Inr True, w2) else loop e ch q g d (waited + d) w2) = Some y"
        using True nonneg 1(2) live by (simp add: sleep_def)
      show ?thesis
      proof (cases b)
        case True
        then show ?thesis using body w2 by auto
      next
        case False
        then have "loop e ch q g d (waited + d) w2 = Some y"
          using body by simp
        from 1(1) [OF this] show ?thesis
          using False w2 by simp
      qed
    qed
  qed
qed

lemma wait_for_reconnect_confirmed:
  "wait_for_reconnect e ch q g d w = Some (r, w') \<Longrightarrow>
     confirmed_reconnects (trace w') =
       confirmed_reconnects (trace w) + (if r = Inr True then 1 else 0)"
  using wait_for_reconnect_loop_confirmed [of e ch q g d 0 w "(r, w')"]
  by (simp add: wait_for_reconnect_def)

subsection \<open>One round of the loop\<close>

lemma run_unfold:
  "run e s w =
      (if max_reconnects (config s) \<le> reconnect_count s
       then Some (Inr (), fst (snd (record_segment e s w)), snd (snd (record_segment e s w)))
       else (case wait_for_reconnect e (channel (config s)) (quality (config s))
         (reconnect_grace_period (config s)) (reconnect_check_interval (config s))
           (snd (snd (record_segment e s w))) of
               None \<Rightarrow> None
             | Some (Inl err, w2) \<Rightarrow> Some (Inl err, fst (snd (record_segment e s w)), w2)
             | Some (Inr came_back, w2) \<Rightarrow>
                 if came_back
                 then run e ((fst (snd (record_segment e s w)))\<lparr>reconnect_count := reconnect_count s + 1\<rparr>) w2
                 else Some (Inr (), fst (snd (record_segment e s w)), w2)))"
  apply (subst run.simps)
  apply (unfold Let_def record_segment_config record_segment_reconnect_count)
  apply (rule refl)
  done

lemma run_cases:
  assumes "run e s w = Some (r, s', w')"
  obtains
    (budget) "max_reconnects (config s) \<le> reconnect_count s" "r = Inr ()"
      "s' = fst (snd (record_segment e s w))" "w' = snd (snd (record_segment e s w))"
  | (raised) err where "reconnect_count s < max_reconnects (config s)"
      "wait_for_reconnect e (channel (config s)) (quality (config s))
         (reconnect_grace_period (config s)) (reconnect_check_interval (config s))
         (snd (snd (record_segment e s w))) = Some (Inl err, w')"
      "r = Inl err" "s' = fst (snd (record_segment e s w))"
  | (ended) "reconnect_count s < max_reconnects (config s)"
      "wait_for_reconnect e (channel (config s)) (quality (config s))
         (reconnect_grace_period (config s)) (reconnect_check_interval (config s))
         (snd (snd (record_segment e s w))) = Some (Inr False, w')"
      "r = Inr ()" "s' = fst (snd (record_segment e s w))"
  | (again) w2 where "reconnect_count s < max_reconnects (config s)"
      "wait_for_reconnect e (channel (config s)) (quality (config s))
         (reconnect_grace_period (config s)) (reconnect_check_interval (config s))
         (snd (snd (record_segment e s w))) = Some (Inr True, w2)"
      "run e ((fst (snd (record_segment e s w)))
          \<lparr>reconnect_count := reconnect_count s + 1\<rparr>) w2 = Some (r, s', w')"
proof -
  define s1 where "s1 = fst (snd (record_segment e s w))"
  define w1 where "w1 = snd (snd (record_segment e s w))"
  define wt where "wt = wait_for_reconnect e (channel (config s)) (quality (config s))
         (reconnect_grace_period (config s)) (reconnect_check_interval (config s)) w1"
  define nxt where "nxt = (\<lambda>w2. run e (s1\<lparr>reconnect_count := reconnect_count s + 1\<rparr>) w2)"
  have eq: "(if max_reconnects (config s) \<le> reconnect_count s then Some (Inr (), s1, w1)
       else (case wt of
               None \<Rightarrow> None
             | Some (Inl err, w2) \<Rightarrow> Some (Inl err, s1, w2)
             | Some (Inr came_back, w2) \<Rightarrow>
                 if came_back then nxt w2 else Some (Inr (), s1, w2))) = Some (r, s', w')"
    unfolding s1_def w1_def wt_def nxt_def
    by (rule trans [OF run_unfold [symmetric] assms])
  show thesis
  proof (cases "max_reconnects (config s) \<le> reconnect_count s")
    case True
    with eq have "r = Inr ()" "s' = s1" "w' = w1" by simp_all
    with True show ?thesis
      unfolding s1_def w1_def by (rule budget)
  next
    case False
    then have lt: "reconnect_count s < max_reconnects (config s)" by simp
    from eq False have eq2: "(case wt of
               None \<Rightarrow> None
             | Some (Inl err, w2) \<Rightarrow> Some (Inl err, s1, w2)
             | Some (Inr came_back, w2) \<Rightarrow>
                 if came_back then nxt w2 else Some (Inr (), s1, w2)) = Some (r, s', w')"
      by simp
    show ?thesis
    proof (cases wt)
      case None
      with eq2 show ?thesis by simp
    next
      case (Some a)
      obtain x w2 where a: "a = (x, w2)" by (cases a)
      show ?thesis
      proof (cases x)
        case (Inl err)
        with eq2 Some a have "r = Inl err" "s' = s1" "w2 = w'" by simp_all
        with Some a Inl lt show ?thesis
          unfolding s1_def w1_def wt_def by (intro raised [of err]) simp_all
      next
        case (Inr came_back)
        show ?thesis
        proof (cases came_back)
          case True
          with eq2 Some a Inr have "nxt w2 = Some (r, s', w')" by simp
          with Some a Inr True lt show ?thesis
            unfolding s1_def w1_def wt_def nxt_def by (intro again [of w2]) simp_all
        next
          case ff: False
          with eq2 Some a Inr have "r = Inr ()" "s' = s1" "w2 = w'" by simp_all
          with Some a Inr ff lt show ?thesis
            unfolding s1_def w1_def wt_def by (intro ended) simp_all
        qed
      qed
    qed
  qed
qed

lemma record_segment_capture_count:
  "capture_count (trace (snd (snd (record_segment e s w)))) = Suc (capture_count (trace w))"
  by (simp add: record_segment_def Let_def unlink_def capture_count_def
      split: prod.split proc_outcome.split)

lemma segment_path_of_cong:
  "config s' = config s \<Longrightarrow> session_date s' = session_date s \<Longrightarrow>
     segment_path_of s' = segment_path_of s"
  by (rule ext) (simp add: segment_path_of_def session_id_def)

lemma record_segment_dense:
  assumes "segments s = map (segment_path_of s) [1..<Suc (length (segments s))]"
  shows "segments (fst (snd (record_segment e s w))) =
           map (segment_path_of s) [1..<Suc (length (segments (fst (snd (record_segment e s w)))))] \<and>
         length (segments s) \<le> length (segments (fst (snd (record_segment e s w)))) \<and>
         take (length (segments s)) (segments (fst (snd (record_segment e s w)))) = segments s"
proof -
  let ?s1 = "fst (snd (record_segment e s w))"
  from record_segment_segments [of e s w]
  show ?thesis
  proof
    assume "segments ?s1 = segments s"
    then show ?thesis using assms by simp
  next
    assume a: "segments ?s1 = segments s @ [next_segment_path s]"
    have "map (segment_path_of s) [1..<Suc (Suc (length (segments s)))]
        = map (segment_path_of s) [1..<Suc (length (segments s))]
            @ [segment_path_of s (Suc (length (segments s)))]"
      by simp
    then show ?thesis
      using a assms by (simp add: next_segment_path_def Let_def)
  qed
qed

lemma run_invariant:
  assumes "run e s w = Some (r, s', w')"
  shows "config s' = config s \<and> session_date s' = session_date s \<and>
         reconnect_count s' = reconnect_count s
           + int (confirmed_reconnects (trace w')) - int (confirmed_reconnects (trace w)) \<and>
         reconnect_count s \<le> reconnect_count s' \<and>
         (segments s = map (segment_path_of s) [1..<Suc (length (segments s))] \<longrightarrow>
            segments s' = map (segment_path_of s) [1..<Suc (length (segments s'))] \<and>
            length (segments s) \<le> length (segments s') \<and>
            take (length (segments s)) (segments s') = segments s)"
  using assms
proof (induction "nat (max_reconnects (config s) - reconnect_count s)" arbitrary: s w
    rule: less_induct)
  case less
  let ?s1 = "fst (snd (record_segment e s w))"
  let ?w1 = "snd (snd (record_segment e s w))"
  note rs = record_segment_config [of e s w] record_segment_session_date [of e s w]
    record_segment_reconnect_count [of e s w] record_segment_confirmed [of e s w]
  from less.prems show ?case
  proof (cases rule: run_cases)
    case budget
    then show ?thesis
      using rs record_segment_dense [of s e w] by simp
  next
    case (raised err)
    then show ?thesis
      using rs record_segment_dense [of s e w] wait_for_reconnect_confirmed [OF raised(2)]
      by simp
  next
    case ended
    then show ?thesis
      using rs record_segment_dense [of s e w] wait_for_reconnect_confirmed [OF ended(2)]
      by simp
  next
    case (again w2)
    let ?s2 = "?s1\<lparr>reconnect_count := reconnect_count s + 1\<rparr>"
    have m: "nat (max_reconnects (config ?s2) - reconnect_count ?s2)
        < nat (max_reconnects (config s) - reconnect_count s)"
      using again(1) rs by simp
    note ih = less.hyps [OF m again(3)]
    have sp: "segment_path_of ?s2 = segment_path_of s"
      by (rule segment_path_of_cong) (simp_all add: rs)
    have c2: "confirmed_reconnects (trace w2) = confirmed_reconnects (trace w) + 1"
      using wait_for_reconnect_confirmed [OF again(2)] rs by simp
    have a: "config s' = config s \<and> session_date s' = session_date s"
      using ih rs by simp
    have b: "reconnect_count s' = reconnect_count s
           + int (confirmed_reconnects (trace w')) - int (confirmed_reconnects (trace w))"
      "reconnect_count s \<le> reconnect_count s'"
      using ih c2 by simp_all
    have c: "segments s' = map (segment_path_of s) [1..<Suc (length (segments s'))] \<and>
            length (segments s) \<le> length (segments s') \<and>
            take (length (segments s)) (segments s') = segments s"
      if d: "segments s = map (segment_path_of s) [1..<Suc (length (segments s))]"
    proof -
      note d1 = record_segment_dense [OF d, of e w]
      have "segments ?s2 = map (segment_path_of ?s2) [1..<Suc (length (segments ?s2))]"
        using d1 sp by simp
      with ih sp have i: "segments s' = map (segment_path_of s) [1..<Suc (length (segments s'))]"
        "length (segments ?s1) \<le> length (segments s')"
        "take (length (segments ?s1)) (segments s') = segments ?s1"
        by simp_all
      have "take (length (segments s)) (segments s')
          = take (length (segments s)) (take (length (segments ?s1)) (segments s'))"
        using d1 by (simp add: min_def)
      then show ?thesis
        using i d1 by simp
    qed
    show ?thesis using a b c by blast
  qed
qed

lemma wait_for_reconnect_loop_steps:
  assumes "wait_for_reconnect_loop e0 ch0 q0 g0 d0 waited0 w0 = Some y0"
  shows "capture_count (trace (snd y0)) = capture_count (trace w0) \<and>
         (\<exists>x. steps (trace (snd y0)) = steps (trace w0) @ x \<and> Capture \<notin> set x \<and>
              (fst y0 = Inr True \<longrightarrow> x \<noteq> []))"
proof (rule wait_for_reconnect_loop.raw_induct
    [where P = "\<lambda>e ch q g d waited w y.
       capture_count (trace (snd y)) = capture_count (trace w) \<and>
       (\<exists>x. steps (trace (snd y)) = steps (trace w) @ x \<and> Capture \<notin> set x \<and>
            (fst y = Inr True \<longrightarrow> x \<noteq> []))", OF _ assms],
    goal_cases)
  case (1 loop e ch q g d waited w y)
  show ?case
  proof (cases "waited < g")
    case False
    with 1(2) show ?thesis by auto
  next
    case True
    show ?thesis
    proof (cases "d < 0")
      case neg: True
      with True 1(2) show ?thesis by (auto simp: sleep_def)
    next
      case nonneg: False
      let ?w1 = "w\<lparr>now := now w + d, trace := trace w @ [Slept d]\<rparr>"
      obtain b w2 where live: "is_live e ch q ?w1 = (b, w2)"
        by (cases "is_live e ch q ?w1")
      have w2: "steps (trace w2) = steps (trace w) @ [Sleep, Probe]"
        "capture_count (trace w2) = capture_count (trace w)"
        using live by (auto simp: is_live_def Let_def steps_append capture_count_def)
      have body: "(if b then Some (Inr True, w2) else loop e ch q g d (waited + d) w2) = Some y"
        using True nonneg 1(2) live by (simp add: sleep_def)
      show ?thesis
      proof (cases b)
        case True
        then show ?thesis using body w2 by auto
      next
        case False
        then have "loop e ch q g d (waited + d) w2 = Some y"
          using body by simp
        from 1(1) [OF this] obtain x where
          x: "capture_count (trace (snd y)) = capture_count (trace w2)"
            "steps (trace (snd y)) = steps (trace w2) @ x" "Capture \<notin> set x"
          by blast
        have "steps (trace (snd y)) = steps (trace w) @ ([Sleep, Probe] @ x) \<and>
            Capture \<notin> set ([Sleep, Probe] @ x) \<and> [Sleep, Probe] @ x \<noteq> []"
          using x w2 by simp
        then show ?thesis
          using x(1) w2(2) by (intro conjI exI [of _ "[Sleep, Probe] @ x"]) simp_all
      qed
    qed
  qed
qed

lemma run_waits_confirm:
  assumes "\<forall>w. \<exists>w'. wait_for_reconnect e (channel (config s)) (quality (config s))
             (reconnect_grace_period (config s)) (reconnect_check_interval (config s)) w
               = Some (Inr True, w')"
      and "reconnect_count s \<le> max_reconnects (config s)"
  shows "\<exists>s' w' ws. run e s w = Some (Inr (), s', w') \<and>
           reconnect_count s' = max_reconnects (config s) \<and>
           capture_count (trace w') = capture_count (trace w)
             + nat (max_reconnects (config s) - reconnect_count s) + 1 \<and>
           length ws = nat (max_reconnects (config s) - reconnect_count s) \<and>
           (\<forall>x\<in>set ws. x \<noteq> [] \<and> Capture \<notin> set x) \<and>
           steps (trace w') = steps (trace w) @ concat (map (\<lambda>x. Capture # x) ws) @ [Capture]"
  using assms
proof (induction "nat (max_reconnects (config s) - reconnect_count s)" arbitrary: s w)
  case 0
  then have le: "max_reconnects (config s) \<le> reconnect_count s" by simp
  have eq: "max_reconnects (config s) = reconnect_count s"
    using le 0(3) by simp
  have run: "run e s w = Some (Inr (), fst (snd (record_segment e s w)),
      snd (snd (record_segment e s w)))"
    using le by (subst run_unfold) simp
  have "run e s w = Some (Inr (), fst (snd (record_segment e s w)),
      snd (snd (record_segment e s w))) \<and>
    reconnect_count (fst (snd (record_segment e s w))) = max_reconnects (config s) \<and>
    capture_count (trace (snd (snd (record_segment e s w)))) = capture_count (trace w)
      + nat (max_reconnects (config s) - reconnect_count s) + 1 \<and>
    length ([] :: step list list) = nat (max_reconnects (config s) - reconnect_count s) \<and>
    (\<forall>x\<in>set ([] :: step list list). x \<noteq> [] \<and> Capture \<notin> set x) \<and>
    steps (trace (snd (snd (record_segment e s w)))) = steps (trace w) @
      concat (map (\<lambda>x. Capture # x) []) @ [Capture]"
    using run eq by (simp add: record_segment_reconnect_count record_segment_steps
        record_segment_capture_count)
  then show ?case by blast
next
  case (Suc k)
  let ?s1 = "fst (snd (record_segment e s w))"
  let ?w1 = "snd (snd (record_segment e s w))"
  let ?s2 = "?s1\<lparr>reconnect_count := reconnect_count s + 1\<rparr>"
  have lt: "\<not> max_reconnects (config s) \<le> reconnect_count s"
    using Suc.hyps(2) by simp
  obtain w2 where wt: "wait_for_reconnect e (channel (config s)) (quality (config s))
      (reconnect_grace_period (config s)) (reconnect_check_interval (config s)) ?w1
        = Some (Inr True, w2)"
    using Suc.prems(1) by blast
  obtain x where x: "capture_count (trace w2) = capture_count (trace ?w1)"
      "steps (trace w2) = steps (trace ?w1) @ x" "Capture \<notin> set x" "x \<noteq> []"
    using wait_for_reconnect_loop_steps [OF wt [unfolded wait_for_reconnect_def]] by auto
  have step: "run e s w = run e ?s2 w2"
    using lt wt by (subst run_unfold) simp
  have cfg: "config ?s2 = config s" "reconnect_count ?s2 = reconnect_count s + 1"
    by (simp_all add: record_segment_config)
  have k: "k = nat (max_reconnects (config ?s2) - reconnect_count ?s2)"
    using Suc.hyps(2) cfg by simp
  have k': "nat (max_reconnects (config s) - reconnect_count s) = Suc k"
    using Suc.hyps(2) by simp
  have pre: "\<forall>w. \<exists>w'. wait_for_reconnect e (channel (config ?s2)) (quality (config ?s2))
             (reconnect_grace_period (config ?s2)) (reconnect_check_interval (config ?s2)) w
               = Some (Inr True, w')"
    "reconnect_count ?s2 \<le> max_reconnects (config ?s2)"
    using Suc.prems lt cfg by simp_all
  obtain s' w' ws where r: "run e ?s2 w2 = Some (Inr (), s', w')"
      "reconnect_count s' = max_reconnects (config ?s2)"
      "capture_count (trace w') = capture_count (trace w2)
             + nat (max_reconnects (config ?s2) - reconnect_count ?s2) + 1"
      "length ws = nat (max_reconnects (config ?s2) - reconnect_count ?s2)"
      "\<forall>x\<in>set ws. x \<noteq> [] \<and> Capture \<notin> set x"
      "steps (trace w') = steps (trace w2) @ concat (map (\<lambda>x. Capture # x) ws) @ [Capture]"
    using Suc.hyps(1) [OF k pre] by blast
  have "run e s w = Some (Inr (), s', w') \<and>
           reconnect_count s' = max_reconnects (config s) \<and>
           capture_count (trace w') = capture_count (trace w)
             + nat (max_reconnects (config s) - reconnect_count s) + 1 \<and>
           length (x # ws) = nat (max_reconnects (config s) - reconnect_count s) \<and>
           (\<forall>x\<in>set (x # ws). x \<noteq> [] \<and> Capture \<notin> set x) \<and>
           steps (trace w') = steps (trace w) @ concat (map (\<lambda>x. Capture # x) (x # ws)) @ [Capture]"
    using step r x k k' cfg
    by (simp add: record_segment_steps record_segment_capture_count)
  then show ?case by blast
qed

subsection \<open>Segment names\<close>

lemma split_sep_ne [simp]: "split_sep x \<noteq> []"
  by (induction x) (auto split: list.splits)

lemma split_sep_plain: "CHR ''/'' \<notin> set y \<Longrightarrow> split_sep y = [y]"
  by (induction y) (auto split: list.splits)

lemma split_sep_append:
  "CHR ''/'' \<notin> set y \<Longrightarrow>
     split_sep (x @ y) = butlast (split_sep x) @ [last (split_sep x) @ y]"
proof (induction x)
  case Nil
  then show ?case by (simp add: split_sep_plain)
next
  case (Cons c cs)
  obtain a as where s: "split_sep cs = a # as"
    by (cases "split_sep cs") auto
  show ?case
    using Cons s by (cases as) (auto split: list.splits)
qed

lemma join_sep_snoc: "join_sep (ps @ [l @ y]) = join_sep (ps @ [l]) @ y"
  by (induction ps rule: join_sep.induct) auto

lemma splitroot_append:
  assumes "CHR ''/'' \<notin> set y"
  shows "splitroot (p @ y) = (fst (splitroot p), snd (splitroot p) @ y)"
proof (cases p)
  case Nil
  then show ?thesis using assms by (cases y) (auto simp: splitroot_def)
next
  case p1: (Cons a p')
  show ?thesis
  proof (cases p')
    case Nil
    then show ?thesis using assms p1 by (cases y) (auto simp: splitroot_def)
  next
    case p2: (Cons b p'')
    show ?thesis
    proof (cases p'')
      case Nil
      then show ?thesis using assms p1 p2 by (cases y) (auto simp: splitroot_def)
    next
      case (Cons c r)
      then show ?thesis using assms p1 p2 by (auto simp: splitroot_def)
    qed
  qed
qed

lemma posixpath_join_append:
  "n1 \<noteq> [] \<Longrightarrow> posixpath_join dir (n1 @ y) = posixpath_join dir n1 @ y"
  by (cases n1) (auto simp: posixpath_join_def)

lemma path_join_stem:
  assumes "n1 \<noteq> []" "CHR ''/'' \<notin> set y" "2 \<le> length y"
  shows "path_join dir (n1 @ y) =
     fst (splitroot (posixpath_join dir n1)) @
     join_sep (filter (\<lambda>x. x \<noteq> [] \<and> x \<noteq> ''.'')
                 (butlast (split_sep (snd (splitroot (posixpath_join dir n1))))) @
               [last (split_sep (snd (splitroot (posixpath_join dir n1))))]) @ y"
proof -
  let ?J = "posixpath_join dir n1"
  let ?ss = "split_sep (snd (splitroot ?J))"
  have keep: "last ?ss @ y \<noteq> []" "last ?ss @ y \<noteq> ''.''"
    using assms(3) by (auto simp: append_eq_Cons_conv)
  have "path_join dir (n1 @ y) = path_str (?J @ y)"
    by (simp add: path_join_def posixpath_join_append [OF assms(1)])
  also have "\<dots> = fst (splitroot ?J) @
      join_sep (filter (\<lambda>x. x \<noteq> [] \<and> x \<noteq> ''.'') (butlast ?ss) @ [last ?ss @ y])"
    using keep
    by (simp add: path_str_def splitroot_append [OF assms(2)] split_sep_append [OF assms(2)]
        Let_def)
  finally show ?thesis
    by (simp add: join_sep_snoc)
qed


lemma digit_no_slash: "k < 10 \<Longrightarrow> ''0123456789'' ! k \<noteq> CHR ''/''"
proof -
  assume "k < 10"
  then have "k \<in> {0, 1, 2, 3, 4, 5, 6, 7, 8, 9}" by auto
  then show ?thesis by auto
qed





lemma digits10_no_slash: "CHR ''/'' \<notin> set (digits10 n)"
proof (induction n rule: digits10.induct)
  case (1 n)
  show ?case
  proof (cases "n < 10")
    case True
    then show ?thesis
      using digit_no_slash [of n] by (subst digits10.simps) simp
  next
    case False
    then show ?thesis
      using 1 digit_no_slash [of "n mod 10"] by (subst digits10.simps) simp
  qed
qed

lemma fmt_02d_no_slash: "CHR ''/'' \<notin> set (fmt_02d n)"
  using digits10_no_slash [of n] by (auto simp: fmt_02d_def Let_def)



lemma segment_path_of_stem:
  "segment_path_of s n =
     fst (splitroot (posixpath_join (output_dir (config s)) (session_id s))) @
     join_sep (filter (\<lambda>x. x \<noteq> [] \<and> x \<noteq> ''.'')
                 (butlast (split_sep (snd (splitroot
                    (posixpath_join (output_dir (config s)) (session_id s)))))) @
               [last (split_sep (snd (splitroot
                    (posixpath_join (output_dir (config s)) (session_id s)))))]) @
     ''_part'' @ fmt_02d n @ ''.ts''"
proof -
  have ne: "session_id s \<noteq> []"
    by (simp add: session_id_def)
  have sl: "CHR ''/'' \<notin> set (''_part'' @ fmt_02d n @ ''.ts'')"
    using fmt_02d_no_slash [of n] by simp
  have len: "2 \<le> length (''_part'' @ fmt_02d n @ ''.ts'')"
    by simp
  show ?thesis
    unfolding segment_path_of_def
    using path_join_stem [OF ne sl len, of "output_dir (config s)"] by simp
qed

lemma demo_segment_path:
  "config s = demo_config \<Longrightarrow> session_date s = ''2024-01-01'' \<Longrightarrow>
     segment_path_of s n = ''/rec/chan_2024-01-01_part'' @ fmt_02d n @ ''.ts''"
  by (simp add: segment_path_of_stem session_id_def demo_config_def posixpath_join_def
      splitroot_def)



lemma demo_fields:
  "channel demo_config = ''chan''" "quality demo_config = ''best''"
  "stream_timeout demo_config = 120" "reconnect_grace_period demo_config = 60"
  "reconnect_check_interval demo_config = 20" "max_reconnects demo_config = 2"
  "streamlink_args demo_config = [''--twitch-disable-ads'', ''--twitch-disable-hosting'']"
  by (simp_all add: demo_config_def)

lemmas session_eval =
  run_unfold record_segment_def wait_for_reconnect_def
  sleep_def is_live_def is_live_answer_def unlink_def exists_nonempty_def
  env_live_def new_session_def empty_world_def
  capture_count_def probe_count_def Let_def next_segment_path_def demo_segment_path
  fmt_02d_def capture_cmd_def TWITCH_URL_def str_int_def digits10.simps
  wait_for_reconnect_loop.simps

subsection \<open>The reconnect budget\<close>

text \<open>
  C4. For a budget \<open>max_reconnects \<ge> 0\<close> and an environment in which the reconnect
  wait, from any state, returns true: a new session has counter 0, and its run returns
  with the counter equal to \<open>max_reconnects\<close> after exactly \<open>max_reconnects + 1\<close>
  capture attempts. Its steps are a capture, then for each of the \<open>max_reconnects\<close>
  reconnects a wait (a non-empty run of sleeps and probes, no capture) followed by a
  capture: the budget is looked at after each capture and before the wait, so no wait
  follows the last capture. For any run that returns, the counter has grown by exactly
  the number of probes that confirmed the stream, and has not gone down.
\<close>

theorem run_reconnect_budget:
  assumes "0 \<le> max_reconnects cfg"
      and "\<forall>w. \<exists>w'. wait_for_reconnect e (channel cfg) (quality cfg)
             (reconnect_grace_period cfg) (reconnect_check_interval cfg) w
               = Some (Inr True, w')"
  shows "reconnect_count (new_session cfg date) = 0 \<and>
         (\<exists>s' w' ws. run e (new_session cfg date) w = Some (Inr (), s', w') \<and>
            reconnect_count s' = max_reconnects cfg \<and>
            capture_count (trace w') = capture_count (trace w) + nat (max_reconnects cfg) + 1 \<and>
            length ws = nat (max_reconnects cfg) \<and>
            (\<forall>x\<in>set ws. x \<noteq> [] \<and> Capture \<notin> set x) \<and>
            steps (trace w') = steps (trace w) @
              concat (map (\<lambda>x. Capture # x) ws) @ [Capture]) \<and>
         (\<forall>s0 w0 r s1 w1. run e s0 w0 = Some (r, s1, w1) \<longrightarrow>
            reconnect_count s0 \<le> reconnect_count s1 \<and>
            reconnect_count s1 = reconnect_count s0
              + int (confirmed_reconnects (trace w1)) - int (confirmed_reconnects (trace w0)))"
proof (intro conjI allI impI)
  show "reconnect_count (new_session cfg date) = 0"
    by (simp add: new_session_def)
next
  have c: "config (new_session cfg date) = cfg" "reconnect_count (new_session cfg date) = 0"
    by (simp_all add: new_session_def)
  show "\<exists>s' w' ws. run e (new_session cfg date) w = Some (Inr (), s', w') \<and>
            reconnect_count s' = max_reconnects cfg \<and>
            capture_count (trace w') = capture_count (trace w) + nat (max_reconnects cfg) + 1 \<and>
            length ws = nat (max_reconnects cfg) \<and>
            (\<forall>x\<in>set ws. x \<noteq> [] \<and> Capture \<notin> set x) \<and>
            steps (trace w') = steps (trace w) @
              concat (map (\<lambda>x. Capture # x) ws) @ [Capture]"
    using run_waits_confirm [of e "new_session cfg date" w] assms c by simp
next
  fix s0 w0 r s1 w1
  assume "run e s0 w0 = Some (r, s1, w1)"
  from run_invariant [OF this]
  show "reconnect_count s0 \<le> reconnect_count s1"
    and "reconnect_count s1 = reconnect_count s0
              + int (confirmed_reconnects (trace w1)) - int (confirmed_reconnects (trace w0))"
    by simp_all
qed

theorem run_reconnect_budget_witness:
  "0 \<le> max_reconnects demo_config \<and>
   (\<forall>w. \<exists>w'. wait_for_reconnect env_alternating (channel demo_config) (quality demo_config)
             (reconnect_grace_period demo_config) (reconnect_check_interval demo_config) w
               = Some (Inr True, w')) \<and>
   run env_alternating (new_session demo_config ''2024-01-01'') empty_world \<noteq> None \<and>
   reconnect_count (fst (snd (the (run env_alternating (new_session demo_config ''2024-01-01'')
       empty_world)))) = 2 \<and>
   capture_count (trace (snd (snd (the (run env_alternating
       (new_session demo_config ''2024-01-01'') empty_world))))) = 3 \<and>
   steps (trace (snd (snd (the (run env_alternating
       (new_session demo_config ''2024-01-01'') empty_world))))) =
     [Capture, Sleep, Probe, Sleep, Probe, Capture, Sleep, Probe, Sleep, Probe, Capture]"
proof -
  let ?run = "run env_alternating (new_session demo_config ''2024-01-01'') empty_world"
  have pa: "probe_answer env_alternating ''chan'' ''best'' n = odd n" for n
    by (simp add: probe_answer_def env_alternating_def env_live_def is_live_answer_def)
  have h1: "0 \<le> max_reconnects demo_config"
    by (simp add: demo_fields)
  have h2: "\<forall>w. \<exists>w'. wait_for_reconnect env_alternating (channel demo_config)
             (quality demo_config) (reconnect_grace_period demo_config)
             (reconnect_check_interval demo_config) w = Some (Inr True, w')"
  proof
    fix w
    show "\<exists>w'. wait_for_reconnect env_alternating (channel demo_config)
             (quality demo_config) (reconnect_grace_period demo_config)
             (reconnect_check_interval demo_config) w = Some (Inr True, w')"
    proof (cases "odd (probe_count (trace w))")
      case True
      then show ?thesis
        using wait_for_reconnect_loop_live [of 20 0 0 60 env_alternating "''chan''" "''best''" w]
        by (auto simp: demo_fields wait_for_reconnect_def pa)
    next
      case False
      then show ?thesis
        using wait_for_reconnect_loop_live [of 20 0 1 60 env_alternating "''chan''" "''best''" w]
        by (auto simp: demo_fields wait_for_reconnect_def pa)
    qed
  qed
  from run_reconnect_budget [OF h1 h2, of "''2024-01-01''" empty_world]
  obtain s' w' where r: "?run = Some (Inr (), s', w')" "reconnect_count s' = 2"
      "capture_count (trace w') = 3"
    by (auto simp: demo_fields empty_world_def capture_count_def)
  have st: "steps (trace (snd (snd (the ?run)))) =
     [Capture, Sleep, Probe, Sleep, Probe, Capture, Sleep, Probe, Sleep, Probe, Capture]"
    by (simp add: session_eval env_alternating_def demo_fields)
  show ?thesis
    using h1 h2 r st by simp
qed

subsection \<open>Accepted segments are numbered densely\<close>







subsection \<open>A capture tool that is not installed\<close>

text \<open>
  C2, as claimed, fails: with the capture tool missing at every attempt and a budget of
  two reconnects, the session waits for the stream and tries again twice, and returns as
  any other session does.
\<close>

theorem tool_unavailable_session_continues:
  "run env_tool_missing (new_session demo_config ''2024-01-01'') empty_world =
     Some (Inr (),
       (new_session demo_config ''2024-01-01'')\<lparr>reconnect_count := 2\<rparr>,
       \<lparr>files = Map.empty, now = 40,
        trace =
          [Captured (capture_cmd (new_session demo_config ''2024-01-01'')
             ''/rec/chan_2024-01-01_part01.ts'') FileNotFoundError,
           Slept 20, Probed 20 True,
           Captured (capture_cmd (new_session demo_config ''2024-01-01'')
             ''/rec/chan_2024-01-01_part01.ts'') FileNotFoundError,
           Slept 20, Probed 40 True,
           Captured (capture_cmd (new_session demo_config ''2024-01-01'')
             ''/rec/chan_2024-01-01_part01.ts'') FileNotFoundError]\<rparr>)"
proof -
  have c: "channel demo_config = ''chan''" "quality demo_config = ''best''"
    "stream_timeout demo_config = 120" "reconnect_grace_period demo_config = 60"
    "reconnect_check_interval demo_config = 20" "max_reconnects demo_config = 2"
    "streamlink_args demo_config = [''--twitch-disable-ads'', ''--twitch-disable-hosting'']"
    by (simp_all add: demo_config_def)
  show ?thesis
    by (simp add: session_eval env_tool_missing_def c)
qed

text \<open>
  C2, amended. When the capture tool is missing, \<open>record_segment\<close> logs the capture
  and returns \<open>None\<close> with the session as it was, as for any failed capture, and the run
  goes on as after any attempt: it ends if the budget is used up, otherwise it waits for
  the stream and, if the stream is back, counts a reconnect and tries again.
\<close>

theorem record_segment_tool_unavailable:
  assumes "fst (capture_env e (capture_count (trace w))
             (capture_cmd s (next_segment_path s)) (files w)) = FileNotFoundError"
  shows "record_segment e s w =
           (None, s, w\<lparr>files := snd (capture_env e (capture_count (trace w))
                                  (capture_cmd s (next_segment_path s)) (files w)),
                      trace := trace w @
                        [Captured (capture_cmd s (next_segment_path s)) FileNotFoundError]\<rparr>) \<and>
         run e s w =
           (if max_reconnects (config s) \<le> reconnect_count s
            then Some (Inr (), s, snd (snd (record_segment e s w)))
            else (case wait_for_reconnect e (channel (config s)) (quality (config s))
                         (reconnect_grace_period (config s))
                         (reconnect_check_interval (config s))
                         (snd (snd (record_segment e s w))) of
                    None \<Rightarrow> None
                  | Some (Inl err, w2) \<Rightarrow> Some (Inl err, s, w2)
                  | Some (Inr came_back, w2) \<Rightarrow>
                      if came_back
                      then run e (s\<lparr>reconnect_count := reconnect_count s + 1\<rparr>) w2
                      else Some (Inr (), s, w2)))"
proof -
  have rs: "record_segment e s w =
           (None, s, w\<lparr>files := snd (capture_env e (capture_count (trace w))
                                  (capture_cmd s (next_segment_path s)) (files w)),
                      trace := trace w @
                        [Captured (capture_cmd s (next_segment_path s)) FileNotFoundError]\<rparr>)"
    using assms
    by (cases "capture_env e (capture_count (trace w))
                (capture_cmd s (next_segment_path s)) (files w)")
      (simp add: record_segment_def Let_def)
  then have s1: "fst (snd (record_segment e s w)) = s" by simp
  have "run e s w =
           (if max_reconnects (config s) \<le> reconnect_count s
            then Some (Inr (), s, snd (snd (record_segment e s w)))
            else (case wait_for_reconnect e (channel (config s)) (quality (config s))
                         (reconnect_grace_period (config s))
                         (reconnect_check_interval (config s))
                         (snd (snd (record_segment e s w))) of
                    None \<Rightarrow> None
                  | Some (Inl err, w2) \<Rightarrow> Some (Inl err, s, w2)
                  | Some (Inr came_back, w2) \<Rightarrow>
                      if came_back
                      then run e (s\<lparr>reconnect_count := reconnect_count s + 1\<rparr>) w2
                      else Some (Inr (), s, w2)))"
    using run_unfold [of e s w] unfolding s1 .
  with rs show ?thesis by (rule conjI)
qed

theorem record_segment_tool_unavailable_witness:
  "fst (capture_env env_tool_missing (capture_count (trace empty_world))
         (capture_cmd (new_session demo_config ''2024-01-01'')
            (next_segment_path (new_session demo_config ''2024-01-01'')))
         (files empty_world)) = FileNotFoundError \<and>
   fst (record_segment env_tool_missing (new_session demo_config ''2024-01-01'') empty_world)
     = None \<and>
   fst (snd (record_segment env_tool_missing (new_session demo_config ''2024-01-01'')
     empty_world)) = new_session demo_config ''2024-01-01''"
proof -
  have h: "fst (capture_env env_tool_missing (capture_count (trace empty_world))
         (capture_cmd (new_session demo_config ''2024-01-01'')
            (next_segment_path (new_session demo_config ''2024-01-01'')))
         (files empty_world)) = FileNotFoundError"
    by (simp add: env_tool_missing_def env_live_def)
  from record_segment_tool_unavailable [OF h] h show ?thesis
    by simp
qed

end

